theory Spec2Isabelle
  imports Main "HOL-Library.Sublist"
begin

section \<open>The scan-and-rewrite engine of latex-merge-changes\<close>

text \<open>
  A shallow embedding of \<^verbatim>\<open>src/latex_merge_changes/core.py\<close>: the brace matcher
  \<^verbatim>\<open>_find_balanced_braces\<close> and the loop of \<^verbatim>\<open>ChangeProcessor.process\<close>.

  Python strings are modelled as \<open>string\<close>, one \<open>char\<close> per code point (code points
  below 256). Offsets into the buffer are natural numbers in the engine: it only ever
  passes \<^verbatim>\<open>match.end()\<close> and end positions returned by the matcher, so Python's
  negative indices (which count from the end) never occur there. The failure pair
  \<^verbatim>\<open>(None, -1)\<close> of the matcher, and the flag \<^verbatim>\<open>current_pos = -1\<close> of the engine, are
  the value \<open>None\<close>. The matcher by itself is also modelled on all of Python's integers,
  further below.
\<close>

subsection \<open>Characters and slices\<close>

definition backslash :: char where
  "backslash = CHR 0x5C"

definition newline :: char where
  "newline = CHR 0x0A"

definition lbrace :: char where
  "lbrace = CHR ''{''"

definition rbrace :: char where
  "rbrace = CHR ''}''"

text \<open>\<^verbatim>\<open>text[a:b]\<close> for offsets \<open>0 \<le> a\<close>, \<open>0 \<le> b\<close>: empty when \<open>b \<le> a\<close>, cut at the end
  of the text.\<close>

definition slice :: "'a list \<Rightarrow> nat \<Rightarrow> nat \<Rightarrow> 'a list" where
  "slice text a b = take (b - a) (drop a text)"

subsection \<open>The brace matcher\<close>

text \<open>
  The \<^verbatim>\<open>for i in range(start_pos, len(text))\<close> loop, with its signed counter
  \<^verbatim>\<open>balance\<close>: the result is the index \<open>i\<close> at which the loop returns, or \<open>None\<close> when
  the range is exhausted.
\<close>

function scan_braces :: "string \<Rightarrow> nat \<Rightarrow> int \<Rightarrow> nat option" where
  "scan_braces text i balance =
     (if i < length text then
        (let balance' = (if text ! i = lbrace then balance + 1
                         else if text ! i = rbrace then balance - 1
                         else balance)
         in if balance' = 0 then Some i else scan_braces text (Suc i) balance')
      else None)"
  by pat_completeness auto
termination
  by (relation "measure (\<lambda>(text, i, balance). length text - i)") auto

declare scan_braces.simps [simp del]

definition find_balanced_braces :: "string \<Rightarrow> nat \<Rightarrow> (string \<times> nat) option" where
  "find_balanced_braces text start_pos =
     (if start_pos \<ge> length text \<or> text ! start_pos \<noteq> lbrace then None
      else
        (let match_start = start_pos + 1
         in case scan_braces text start_pos 0 of
              Some i \<Rightarrow> Some (slice text match_start i, i + 1)
            | None \<Rightarrow> None))"

subsection \<open>The command table and the decision source\<close>

text \<open>
  The engine imports \<^verbatim>\<open>COMMAND_MAP\<close> and \<^verbatim>\<open>Command\<close> from \<^verbatim>\<open>commands.py\<close> and
  \<^verbatim>\<open>InteractionHandler\<close> from \<^verbatim>\<open>handlers.py\<close>. It reads three attributes of a
  \<^verbatim>\<open>Command\<close> (\<^verbatim>\<open>num_args\<close>, \<^verbatim>\<open>accept\<close>, \<^verbatim>\<open>reject\<close>), looks commands up in the
  dictionary and calls \<^verbatim>\<open>handler.get_decision_for_change\<close>; the table, the transforms
  and the decision source are parameters here, and all of them are total: a transform or
  a decision source that raises is outside the model. The dictionary
  is an association list in the order of its keys, since that order is the order of the
  alternatives of the command pattern. The decision source may keep state of its own
  (an interactive prompt, a script of answers): it takes its state and returns the
  action together with the new state. Actions are Python strings.
\<close>

record command =
  num_args :: nat
  accept :: "string list \<Rightarrow> string"
  reject :: "string list \<Rightarrow> string"

type_synonym command_map = "(string \<times> command) list"

type_synonym 'h decision_source = "'h \<Rightarrow> command \<Rightarrow> string list \<Rightarrow> string \<times> 'h"

subsection \<open>The command pattern\<close>

text \<open>
  \<^verbatim>\<open>re.compile(r'\\(' + '|'.join(COMMAND_MAP.keys()) + r')(\s*\[.*?\])*')\<close>.
  The keys are taken literally (command names are words without pattern operators).
  Joining no key at all gives the empty pattern inside the group, which matches the empty
  string.
\<close>

definition command_names :: "command_map \<Rightarrow> string list" where
  "command_names cmds = (if cmds = [] then [[]] else map fst cmds)"

text \<open>The alternation tries its alternatives from left to right; what follows the group
  can always match (with no optional group at all), so the first alternative that fits
  is the one taken.\<close>

fun match_name :: "string list \<Rightarrow> string \<Rightarrow> string option" where
  "match_name [] rest = None"
| "match_name (n # ns) rest = (if prefix n rest then Some n else match_name ns rest)"

text \<open>\<^verbatim>\<open>\s\<close> on a Python \<^verbatim>\<open>str\<close> pattern: the white space characters below code
  point 256.\<close>

definition is_space :: "char \<Rightarrow> bool" where
  "is_space c = (of_char c \<in> {9, 10, 11, 12, 13, 28, 29, 30, 31, 32, 133, 160 :: nat})"

text \<open>\<^verbatim>\<open>.*?\]\<close>: the lazy star stops at the first closing bracket; the dot matches
  everything but a newline. The result is the number of characters matched.\<close>

fun lazy_to_bracket :: "string \<Rightarrow> nat option" where
  "lazy_to_bracket [] = None"
| "lazy_to_bracket (c # cs) =
     (if c = CHR '']'' then Some 1
      else if c = newline then None
      else map_option Suc (lazy_to_bracket cs))"

text \<open>One \<^verbatim>\<open>\s*\[.*?\]\<close>: the number of characters matched.\<close>

definition opt_group :: "string \<Rightarrow> nat option" where
  "opt_group s =
     (let ws = length (takeWhile is_space s)
      in case drop ws s of
           [] \<Rightarrow> None
         | c # r \<Rightarrow> (if c = CHR ''['' then map_option (\<lambda>k. ws + 1 + k) (lazy_to_bracket r)
                     else None))"

lemma lazy_to_bracket_bound: "lazy_to_bracket s = Some k \<Longrightarrow> 0 < k \<and> k \<le> length s"
  by (induction s arbitrary: k) (auto split: if_splits)

lemma opt_group_bound:
  assumes "opt_group s = Some k"
  shows "0 < k \<and> k \<le> length s"
proof -
  let ?ws = "length (takeWhile is_space s)"
  from assms obtain c r j where d: "drop ?ws s = c # r" and j: "lazy_to_bracket r = Some j"
    and k: "k = ?ws + 1 + j"
    by (auto simp: opt_group_def Let_def split: list.splits if_splits)
  have "length (drop ?ws s) = Suc (length r)" using d by simp
  moreover have "j \<le> length r" using lazy_to_bracket_bound [OF j] by simp
  ultimately show ?thesis using k by simp
qed

text \<open>The greedy star over the optional groups: the total number of characters matched.\<close>

function opt_groups :: "string \<Rightarrow> nat" where
  "opt_groups s = (case opt_group s of None \<Rightarrow> 0 | Some k \<Rightarrow> k + opt_groups (drop k s))"
  by pat_completeness auto
termination
proof (relation "measure length")
  show "wf (measure length)" by simp
next
  fix s :: string and k
  assume "opt_group s = Some k"
  from opt_group_bound [OF this] have "0 < k" and "k \<le> length s" by simp_all
  then show "(drop k s, s) \<in> measure length" by simp
qed

declare opt_groups.simps [simp del]

text \<open>The pattern anchored at the head of \<open>s\<close>: group 1 and the length of the match.\<close>

fun match_at :: "string list \<Rightarrow> string \<Rightarrow> (string \<times> nat) option" where
  "match_at alts [] = None"
| "match_at alts (c # cs) =
     (if c = backslash then
        (case match_name alts cs of
           None \<Rightarrow> None
         | Some n \<Rightarrow> Some (n, 1 + length n + opt_groups (drop (length n) cs)))
      else None)"

text \<open>\<^verbatim>\<open>command_regex.search\<close>: the leftmost match, as
  (\<^verbatim>\<open>match.start()\<close>, \<^verbatim>\<open>match.end()\<close>, \<^verbatim>\<open>match.group(1)\<close>). The first argument of
  \<open>search_from\<close> is the offset of the rest of the text still to be searched.\<close>

fun search_from :: "string list \<Rightarrow> nat \<Rightarrow> string \<Rightarrow> (nat \<times> nat \<times> string) option" where
  "search_from alts i [] = None"
| "search_from alts i (c # cs) =
     (case match_at alts (c # cs) of
        Some (n, len) \<Rightarrow> Some (i, i + len, n)
      | None \<Rightarrow> search_from alts (Suc i) cs)"

definition search :: "command_map \<Rightarrow> string \<Rightarrow> (nat \<times> nat \<times> string) option" where
  "search cmds text = search_from (command_names cmds) 0 text"

subsection \<open>Occurrences of command names\<close>

text \<open>
  An occurrence of a recognized command name is an offset that holds the escape marker
  with one of the names of the pattern right behind it. \<open>occurrences\<close> lists them from
  left to right.
\<close>

definition occurs_at :: "string list \<Rightarrow> string \<Rightarrow> nat \<Rightarrow> bool" where
  "occurs_at names text i =
     (i < length text \<and> text ! i = backslash \<and> list_ex (\<lambda>n. prefix n (drop (Suc i) text)) names)"

definition occurrences :: "command_map \<Rightarrow> string \<Rightarrow> nat list" where
  "occurrences cmds text = filter (occurs_at (command_names cmds) text) [0..<length text]"

subsection \<open>The scan-rewrite loop\<close>

text \<open>
  What a run of \<^verbatim>\<open>process\<close> has done so far: the buffer \<^verbatim>\<open>processed_text\<close>, the state
  of the decision source, the lines written by \<^verbatim>\<open>print\<close>, the calls made to
  \<^verbatim>\<open>get_decision_for_change\<close> (command name and argument list, in order), and the number
  of passes through the loop body that rewrote the buffer.
\<close>

record 'h run =
  processed_text :: string
  handler :: 'h
  printed :: "string list"
  asked :: "(string \<times> string list) list"
  passes :: nat

datatype error = KeyError string | IndexError

datatype 'h step = Break | Raise error | Continue "'h run"

text \<open>\<^verbatim>\<open>str(n)\<close> for a non-negative integer, as the f-string of the warning formats
  \<^verbatim>\<open>match.start()\<close>.\<close>

definition digit :: "nat \<Rightarrow> char" where
  "digit d = ''0123456789'' ! d"

fun str_nat :: "nat \<Rightarrow> string" where
  "str_nat n =
     (if n < 10 then [digit n]
      else str_nat (n div 10) @ [digit (n mod 10)])"

declare str_nat.simps [simp del]

definition warning :: "string \<Rightarrow> nat \<Rightarrow> string" where
  "warning command_name start =
     ''Warning: Malformed command '' @ [CHR 0x27, backslash] @ command_name @ [CHR 0x27]
       @ '' at position '' @ str_nat start @ ''. Skipping.''"

text \<open>The \<^verbatim>\<open>for _ in range(command.num_args)\<close> loop. \<open>None\<close> is the exit through
  \<^verbatim>\<open>current_pos = -1\<close>; the arguments gathered before it are not used again.\<close>

fun collect_args :: "string \<Rightarrow> nat \<Rightarrow> string list \<Rightarrow> nat \<Rightarrow> (string list \<times> nat) option" where
  "collect_args text 0 args current_pos = Some (args, current_pos)"
| "collect_args text (Suc n) args current_pos =
     (case find_balanced_braces text current_pos of
        None \<Rightarrow> None
      | Some (content, next_pos) \<Rightarrow> collect_args text n (args @ [content]) next_pos)"

text \<open>The replacement chosen for an action; any other action leaves the initial
  \<^verbatim>\<open>replacement = ""\<close>.\<close>

definition replacement_for ::
  "string \<Rightarrow> command \<Rightarrow> string list \<Rightarrow> string \<Rightarrow> nat \<Rightarrow> nat \<Rightarrow> string" where
  "replacement_for action cmd args text start command_end_pos =
     (if action = ''a'' then accept cmd args
      else if action = ''r'' then reject cmd args
      else if action = ''k'' then slice text start command_end_pos
      else [])"

text \<open>One pass through the body of \<^verbatim>\<open>while True\<close>.\<close>

definition iteration :: "command_map \<Rightarrow> 'h decision_source \<Rightarrow> 'h run \<Rightarrow> 'h step" where
  "iteration cmds decide s =
     (let text = processed_text s
      in case search cmds text of
           None \<Rightarrow> Break
         | Some (start, match_end, command_name) \<Rightarrow>
             (case map_of cmds command_name of
                None \<Rightarrow> Raise (KeyError command_name)
              | Some cmd \<Rightarrow>
                  (case collect_args text (num_args cmd) [] match_end of
                     None \<Rightarrow>
                       Continue (s\<lparr>processed_text := take start text @ drop match_end text,
                                   printed := printed s @ [warning command_name start],
                                   passes := Suc (passes s)\<rparr>)
                   | Some (args, command_end_pos) \<Rightarrow>
                       (case decide (handler s) cmd args of
                          (action, h') \<Rightarrow>
                            Continue (s\<lparr>processed_text :=
                                          take start text
                                            @ replacement_for action cmd args text start command_end_pos
                                            @ drop command_end_pos text,
                                        handler := h',
                                        asked := asked s @ [(command_name, args)],
                                        passes := Suc (passes s)\<rparr>)))))"

text \<open>The loop itself may run forever; then its value is \<open>None\<close>. A \<^verbatim>\<open>KeyError\<close> of
  the dictionary lookup ends the run with \<open>Inl\<close>.\<close>

partial_function (option) process_loop ::
  "command_map \<Rightarrow> 'h decision_source \<Rightarrow> 'h run \<Rightarrow> (error + 'h run) option" where
  "process_loop cmds decide s =
     (case iteration cmds decide s of
        Break \<Rightarrow> Some (Inr s)
      | Raise e \<Rightarrow> Some (Inl e)
      | Continue s' \<Rightarrow> process_loop cmds decide s')"

definition start_run :: "string \<Rightarrow> 'h \<Rightarrow> 'h run" where
  "start_run text h = \<lparr>processed_text = text, handler = h, printed = [], asked = [], passes = 0\<rparr>"

text \<open>\<^verbatim>\<open>process\<close> returns the \<^verbatim>\<open>processed_text\<close> of the final run.\<close>

definition process ::
  "command_map \<Rightarrow> 'h decision_source \<Rightarrow> string \<Rightarrow> 'h \<Rightarrow> (error + 'h run) option" where
  "process cmds decide text h = process_loop cmds decide (start_run text h)"

subsection \<open>The contract of the brace matcher\<close>

text \<open>
  The contract \<^verbatim>\<open>match_braces(buffer, pos)\<close> in the words of the specification,
  to be compared with \<open>find_balanced_braces\<close>. The nesting of the text from \<open>pos\<close>
  through \<open>i\<close> is the number of opening braces there minus the number of closing ones;
  the matching close of the brace at \<open>pos\<close> is the first offset at which the nesting is
  back at zero; the result is the text strictly between the two braces and the offset one
  past the matching close.
\<close>

definition delta :: "char \<Rightarrow> int" where
  "delta c = (if c = lbrace then 1 else if c = rbrace then - 1 else 0)"

definition nesting :: "string \<Rightarrow> nat \<Rightarrow> nat \<Rightarrow> int" where
  "nesting text pos i =
     int (length (filter (\<lambda>c. c = lbrace) (slice text pos (Suc i))))
       - int (length (filter (\<lambda>c. c = rbrace) (slice text pos (Suc i))))"

definition matching_close :: "string \<Rightarrow> nat \<Rightarrow> nat option" where
  "matching_close text pos = find (\<lambda>i. nesting text pos i = 0) [pos..<length text]"

definition match_braces :: "string \<Rightarrow> nat \<Rightarrow> (string \<times> nat) option" where
  "match_braces text pos =
     (if pos < length text \<and> text ! pos = lbrace then
        (case matching_close text pos of
           Some m \<Rightarrow> Some (slice text (pos + 1) m, m + 1)
         | None \<Rightarrow> None)
      else None)"

text \<open>An argument as it stands in the buffer, inside its braces.\<close>

definition braced :: "string \<Rightarrow> string" where
  "braced a = lbrace # a @ [rbrace]"

subsection \<open>Escape characters and the assumptions of the termination argument\<close>

text \<open>
  Every occurrence of a command name starts with an escape character, so the number of
  escape characters in the buffer bounds the number of occurrences. A table adds no new
  markers when neither transform of any of its commands returns more escape characters
  than the arguments it was given hold together. A decision source never keeps when it
  never answers \<^verbatim>\<open>k\<close>.
\<close>

definition count_backslashes :: "string \<Rightarrow> nat" where
  "count_backslashes t = length (filter (\<lambda>c. c = backslash) t)"

definition no_new_markers :: "command_map \<Rightarrow> bool" where
  "no_new_markers cmds =
     (\<forall>(name, cmd) \<in> set cmds. \<forall>args. length args = num_args cmd \<longrightarrow>
        count_backslashes (accept cmd args) \<le> sum_list (map count_backslashes args)
        \<and> count_backslashes (reject cmd args) \<le> sum_list (map count_backslashes args))"

definition never_keeps :: "'h decision_source \<Rightarrow> bool" where
  "never_keeps decide = (\<forall>h cmd args. fst (decide h cmd args) \<noteq> ''k'')"

subsection \<open>A command table for the examples\<close>

text \<open>One command of one argument, \<^verbatim>\<open>added\<close>: accepting it returns its sole argument
  unmodified, rejecting it returns the empty string.\<close>

definition added_only :: command_map where
  "added_only = [(''added'', \<lparr>num_args = 1, accept = hd, reject = (\<lambda>_. [])\<rparr>)]"

text \<open>A decision source without state that gives the same answer every time.\<close>

definition always :: "string \<Rightarrow> 'h decision_source" where
  "always action h cmd args = (action, h)"

subsection \<open>The brace matcher on Python's integers\<close>

text \<open>
  \<^verbatim>\<open>_find_balanced_braces\<close> takes \<^verbatim>\<open>start_pos: int\<close>. The engine calls it at offsets
  \<open>\<ge> 0\<close> only, which is what \<open>find_balanced_braces\<close> above covers. For a claim about
  every position the function is given here on all integers, with Python's indexing and
  slicing; the failure pair \<^verbatim>\<open>(None, -1)\<close> is \<open>Inr None\<close>. At positions \<open>\<ge> 0\<close> the two
  agree (\<open>find_balanced_braces_py_nat\<close> below).
\<close>

text \<open>\<^verbatim>\<open>xs[i]\<close> for any integer: a negative index counts from the end, and an index
  outside \<open>-len \<le> i < len\<close> raises \<^verbatim>\<open>IndexError\<close>.\<close>

definition py_index :: "'a list \<Rightarrow> int \<Rightarrow> error + 'a" where
  "py_index xs i =
     (let n = int (length xs)
      in if 0 \<le> i \<and> i < n then Inr (xs ! nat i)
         else if - n \<le> i \<and> i < 0 then Inr (xs ! nat (n + i))
         else Inl IndexError)"

text \<open>\<^verbatim>\<open>xs[a:b]\<close> for any integers: a negative bound counts from the end, and both
  bounds are cut to the list.\<close>

definition py_slice :: "'a list \<Rightarrow> int \<Rightarrow> int \<Rightarrow> 'a list" where
  "py_slice xs a b =
     (let n = int (length xs);
          clamp = (\<lambda>k. if k < 0 then max (k + n) 0 else min k n)
      in slice xs (nat (clamp a)) (nat (clamp b)))"

text \<open>The loop and the function as they are written, with \<^verbatim>\<open>or\<close> evaluated from
  left to right.\<close>

function scan_braces_py :: "string \<Rightarrow> int \<Rightarrow> int \<Rightarrow> error + int option" where
  "scan_braces_py text i balance =
     (if i < int (length text) then
        (case py_index text i of
           Inl e \<Rightarrow> Inl e
         | Inr c \<Rightarrow>
             (let balance' = (if c = lbrace then balance + 1
                              else if c = rbrace then balance - 1
                              else balance)
              in if balance' = 0 then Inr (Some i) else scan_braces_py text (i + 1) balance'))
      else Inr None)"
  by pat_completeness auto
termination
  by (relation "measure (\<lambda>(text, i, balance). nat (int (length text) - i))") auto

declare scan_braces_py.simps [simp del]

definition find_balanced_braces_py :: "string \<Rightarrow> int \<Rightarrow> error + (string \<times> int) option" where
  "find_balanced_braces_py text start_pos =
     (if start_pos \<ge> int (length text) then Inr None
      else
        (case py_index text start_pos of
           Inl e \<Rightarrow> Inl e
         | Inr c \<Rightarrow>
             (if c \<noteq> lbrace then Inr None
              else
                (let match_start = start_pos + 1
                 in case scan_braces_py text start_pos 0 of
                      Inl e \<Rightarrow> Inl e
                    | Inr None \<Rightarrow> Inr None
                    | Inr (Some i) \<Rightarrow> Inr (Some (py_slice text match_start i, i + 1))))))"

subsection \<open>Decimal numerals\<close>

text \<open>The number that a string of decimal digits denotes, to say what \<open>str_nat\<close>
  prints.\<close>

definition is_digit :: "char \<Rightarrow> bool" where
  "is_digit c = (c \<in> set ''0123456789'')"

definition decimal_value :: "string \<Rightarrow> nat" where
  "decimal_value ds = foldl (\<lambda>v c. 10 * v + (of_char c - 48)) 0 ds"

section \<open>Properties of the brace matcher\<close>

lemma lbrace_neq_rbrace: "lbrace \<noteq> rbrace"
  by (simp add: lbrace_def rbrace_def)

lemma nesting_sum: "nesting t pos i = sum_list (map delta (slice t pos (Suc i)))"
proof -
  have "int (length (filter (\<lambda>c. c = lbrace) xs)) - int (length (filter (\<lambda>c. c = rbrace) xs))
          = sum_list (map delta xs)" for xs
    using lbrace_neq_rbrace by (induction xs) (auto simp: delta_def)
  then show ?thesis by (simp add: nesting_def)
qed

lemma slice_Cons: "i < length t \<Longrightarrow> i < j \<Longrightarrow> slice t i j = t ! i # slice t (Suc i) j"
  by (simp add: slice_def Cons_nth_drop_Suc [symmetric] take_Suc_Cons [symmetric] Suc_diff_Suc del: take_Suc_Cons)

lemma nesting_step:
  "i < length t \<Longrightarrow> i < j \<Longrightarrow> nesting t i j = delta (t ! i) + nesting t (Suc i) j"
  by (simp add: nesting_sum slice_Cons)

lemma nesting_self: "i < length t \<Longrightarrow> nesting t i i = delta (t ! i)"
  by (simp add: nesting_sum slice_def take_Suc_conv_app_nth hd_drop_conv_nth take_Suc)

lemma scan_braces_find:
  "scan_braces t i b = find (\<lambda>j. b + nesting t i j = 0) [i..<length t]"
proof (induction t i b rule: scan_braces.induct)
  case (1 t i balance)
  show ?case
  proof (cases "i < length t")
    case False
    then show ?thesis by (simp add: scan_braces.simps [of t i])
  next
    case True
    let ?b = "balance + delta (t ! i)"
    have upt: "[i..<length t] = i # [Suc i..<length t]"
      using True by (simp add: upt_conv_Cons)
    have b': "(if t ! i = lbrace then balance + 1
               else if t ! i = rbrace then balance - 1 else balance) = ?b"
      by (simp add: delta_def)
    have rest: "find (\<lambda>j. balance + nesting t i j = 0) [Suc i..<length t]
                  = find (\<lambda>j. ?b + nesting t (Suc i) j = 0) [Suc i..<length t]"
      by (rule find_cong) (use True in \<open>auto simp: nesting_step\<close>)
    show ?thesis
    proof (cases "?b = 0")
      case True
      with \<open>i < length t\<close> show ?thesis
        by (simp add: scan_braces.simps [of t i] b' upt nesting_self)
    next
      case False
      have "scan_braces t i balance = scan_braces t (Suc i) ?b"
        using True False by (simp add: scan_braces.simps [of t i] b' Let_def)
      also have "\<dots> = find (\<lambda>j. ?b + nesting t (Suc i) j = 0) [Suc i..<length t]"
        using "1.IH" [OF True refl] False by (simp add: b')
      finally show ?thesis
        using True False by (simp add: upt nesting_self rest)
    qed
  qed
qed

lemma find_balanced_braces_spec: "find_balanced_braces t pos = match_braces t pos"
  by (auto simp: find_balanced_braces_def match_braces_def matching_close_def scan_braces_find
           split: option.splits)

lemma scan_braces_close:
  "0 < b \<Longrightarrow> scan_braces t i b = Some j \<Longrightarrow> i \<le> j \<and> j < length t \<and> t ! j = rbrace"
proof (induction t i b rule: scan_braces.induct)
  case (1 t i balance)
  let ?b = "if t ! i = lbrace then balance + 1
            else if t ! i = rbrace then balance - 1 else balance"
  from "1.prems" have lt: "i < length t"
    by (simp add: scan_braces.simps [of t i] split: if_splits)
  show ?case
  proof (cases "?b = 0")
    case True
    with "1.prems" lt have "j = i" by (simp add: scan_braces.simps [of t i])
    moreover from True "1.prems"(1) have "t ! i = rbrace" by (auto split: if_splits)
    ultimately show ?thesis using lt by simp
  next
    case False
    with "1.prems" lt have "scan_braces t (Suc i) ?b = Some j"
      by (simp add: scan_braces.simps [of t i] Let_def)
    moreover from False "1.prems"(1) have "0 < ?b" by (auto split: if_splits)
    ultimately have "Suc i \<le> j \<and> j < length t \<and> t ! j = rbrace"
      using "1.IH" [OF lt refl False] by blast
    then show ?thesis by simp
  qed
qed

lemma find_balanced_braces_Some:
  assumes "find_balanced_braces t pos = Some (content, end_pos)"
  shows "pos + 2 \<le> end_pos \<and> end_pos \<le> length t \<and> t ! pos = lbrace
         \<and> t ! (end_pos - 1) = rbrace \<and> content = slice t (pos + 1) (end_pos - 1)"
proof -
  from assms have lt: "pos < length t" and lb: "t ! pos = lbrace"
    by (auto simp: find_balanced_braces_def split: if_splits)
  from assms lt lb obtain i where i: "scan_braces t pos 0 = Some i"
    and c: "content = slice t (pos + 1) i" and e: "end_pos = i + 1"
    by (auto simp: find_balanced_braces_def split: option.splits)
  from i lt lb have "scan_braces t (Suc pos) 1 = Some i"
    by (simp add: scan_braces.simps [of t pos])
  from scan_braces_close [OF _ this] have "Suc pos \<le> i \<and> i < length t \<and> t ! i = rbrace"
    by simp
  then show ?thesis using c e lb by simp
qed

section \<open>Properties of the command pattern and of argument collection\<close>

lemma opt_groups_le: "opt_groups s \<le> length s"
proof (induction s rule: opt_groups.induct)
  case (1 s)
  show ?case
  proof (cases "opt_group s")
    case None
    then show ?thesis by (simp add: opt_groups.simps [of s])
  next
    case (Some k)
    from opt_group_bound [OF Some] have k: "k \<le> length s" by simp
    from "1.IH" [OF Some] have "opt_groups (drop k s) \<le> length s - k" by simp
    with Some k show ?thesis by (simp add: opt_groups.simps [of s])
  qed
qed

lemma match_name_Some: "match_name alts rest = Some n \<Longrightarrow> n \<in> set alts \<and> prefix n rest"
  by (induction alts) (auto split: if_splits)

lemma match_name_ex: "list_ex (\<lambda>n. prefix n rest) alts \<longleftrightarrow> match_name alts rest \<noteq> None"
  by (induction alts) auto

lemma match_at_None:
  "match_at alts u = None \<longleftrightarrow> \<not> occurs_at alts u 0"
  by (cases u) (auto simp: occurs_at_def match_name_ex drop_Suc split: option.splits)

lemma occurs_at_Cons: "occurs_at alts (c # cs) (Suc j) = occurs_at alts cs j"
  by (simp add: occurs_at_def)

lemma no_occurrence_Cons:
  "(\<forall>j<length (c # cs). \<not> occurs_at alts (c # cs) j)
     \<longleftrightarrow> \<not> occurs_at alts (c # cs) 0 \<and> (\<forall>j<length cs. \<not> occurs_at alts cs j)"
proof -
  have "(\<forall>j<Suc (length cs). \<not> occurs_at alts (c # cs) j)
     \<longleftrightarrow> \<not> occurs_at alts (c # cs) 0 \<and> (\<forall>j<length cs. \<not> occurs_at alts (c # cs) (Suc j))"
    by (simp only: All_less_Suc2)
  then show ?thesis by (simp add: occurs_at_Cons)
qed

lemma search_from_None:
  "search_from alts i t = None \<longleftrightarrow> (\<forall>j<length t. \<not> occurs_at alts t j)"
proof (induction t arbitrary: i)
  case Nil
  then show ?case by simp
next
  case (Cons c cs)
  show ?case
  proof (cases "match_at alts (c # cs)")
    case None
    then have n: "\<not> occurs_at alts (c # cs) 0"
      using match_at_None [of alts "c # cs"] by blast
    have "search_from alts i (c # cs) = search_from alts (Suc i) cs" using None by simp
    then show ?thesis
      unfolding no_occurrence_Cons using n Cons.IH [of "Suc i"] by simp
  next
    case (Some a)
    then have "occurs_at alts (c # cs) 0"
      using match_at_None [of alts "c # cs"] by simp
    moreover have "search_from alts i (c # cs) \<noteq> None" using Some by (simp split: prod.splits)
    ultimately show ?thesis unfolding no_occurrence_Cons by simp
  qed
qed
lemma match_at_Some:
  assumes "match_at alts u = Some (n, len)"
  shows "u \<noteq> [] \<and> hd u = backslash \<and> n \<in> set alts \<and> prefix n (tl u)
         \<and> length n < len \<and> len \<le> length u"
proof -
  from assms obtain c cs where u: "u = c # cs" by (cases u) auto
  from assms u have c: "c = backslash" and m: "match_name alts cs = Some n"
    and len: "len = 1 + length n + opt_groups (drop (length n) cs)"
    by (auto split: if_splits option.splits)
  from match_name_Some [OF m] have n: "n \<in> set alts" and p: "prefix n cs" by simp_all
  from p have "length n \<le> length cs" by (rule prefix_length_le)
  moreover have "opt_groups (drop (length n) cs) \<le> length cs - length n"
    using opt_groups_le [of "drop (length n) cs"] by simp
  ultimately show ?thesis using u c n p len by simp
qed

lemma search_from_Some:
  assumes "search_from alts i t = Some (start, match_end, n)"
  shows "i \<le> start \<and> start < match_end \<and> match_end \<le> i + length t
         \<and> t ! (start - i) = backslash \<and> n \<in> set alts
         \<and> match_at alts (drop (start - i) t) = Some (n, match_end - start)
         \<and> (\<forall>j<start - i. \<not> occurs_at alts t j)"
  using assms
proof (induction t arbitrary: i)
  case Nil
  then show ?case by simp
next
  case (Cons c cs)
  show ?case
  proof (cases "match_at alts (c # cs)")
    case None
    with Cons.prems have "search_from alts (Suc i) cs = Some (start, match_end, n)" by simp
    from Cons.IH [OF this] have ih: "Suc i \<le> start" "start < match_end"
      "match_end \<le> Suc i + length cs" "cs ! (start - Suc i) = backslash" "n \<in> set alts"
      "match_at alts (drop (start - Suc i) cs) = Some (n, match_end - start)"
      "\<forall>j<start - Suc i. \<not> occurs_at alts cs j" by simp_all
    from ih(1) have eq: "start - i = Suc (start - Suc i)" by simp
    have "\<not> occurs_at alts (c # cs) 0"
      using match_at_None [of alts "c # cs"] None by blast
    with ih(7) have "\<forall>j<start - i. \<not> occurs_at alts (c # cs) j"
      unfolding eq by (simp add: All_less_Suc2 occurs_at_Cons)
    with ih show ?thesis unfolding eq by simp
  next
    case (Some a)
    obtain m len where a: "a = (m, len)" by (cases a)
    with Some Cons.prems have s: "start = i" "match_end = i + len" "m = n" by simp_all
    from match_at_Some [OF Some [unfolded a]] s Some a show ?thesis by simp
  qed
qed

lemma search_Some:
  assumes "search cmds t = Some (start, match_end, n)"
  shows "start < match_end \<and> match_end \<le> length t \<and> t ! start = backslash
         \<and> n \<in> set (command_names cmds)"
  using search_from_Some [OF assms [unfolded search_def]] by simp

lemma search_None: "search cmds t = None \<longleftrightarrow> occurrences cmds t = []"
  by (auto simp: search_def search_from_None occurrences_def filter_empty_conv)

lemma collect_args_bounds:
  "collect_args t n args p = Some (args', e) \<Longrightarrow> p \<le> length t \<Longrightarrow>
     p + 2 * n \<le> e \<and> e \<le> length t \<and> length args' = length args + n"
proof (induction n arbitrary: args p)
  case 0
  then show ?case by simp
next
  case (Suc n)
  from Suc.prems(1) obtain c q where f: "find_balanced_braces t p = Some (c, q)"
    and r: "collect_args t n (args @ [c]) q = Some (args', e)"
    by (auto split: option.splits)
  from find_balanced_braces_Some [OF f] have q: "p + 2 \<le> q" "q \<le> length t" by simp_all
  from Suc.IH [OF r q(2)] q show ?case by simp
qed

lemmas pattern_eval =
  search_def command_names_def opt_groups.simps opt_group_def is_space_def
  backslash_def newline_def

lemmas matcher_eval =
  find_balanced_braces_def scan_braces.simps lbrace_def rbrace_def slice_def

section \<open>Properties of one pass of the loop\<close>

lemma slice_append:
  "a \<le> b \<Longrightarrow> b \<le> c \<Longrightarrow> slice t a c = slice t a b @ slice t b c"
proof -
  assume ab: "a \<le> b" and bc: "b \<le> c"
  then have "c - a = (b - a) + (c - b)" by simp
  then have "take (c - a) (drop a t) = take (b - a) (drop a t) @ take (c - b) (drop (b - a) (drop a t))"
    by (simp only: take_add)
  with ab show ?thesis by (simp add: slice_def)
qed

lemma slice_self [simp]: "slice t a a = []"
  by (simp add: slice_def)

lemma slice_single: "a < length t \<Longrightarrow> slice t a (Suc a) = [t ! a]"
  by (simp add: slice_Cons)

lemma text_split:
  "a \<le> b \<Longrightarrow> take a t @ slice t a b @ drop b t = t"
proof -
  assume ab: "a \<le> b"
  have "slice t a b @ drop b t = drop a t"
  proof -
    have "drop b t = drop (b - a) (drop a t)" using ab by simp
    then show ?thesis by (simp only: slice_def append_take_drop_id)
  qed
  then show ?thesis by simp
qed

lemma find_balanced_braces_slice:
  assumes "find_balanced_braces t p = Some (c, q)"
  shows "slice t p q = braced c"
proof -
  from find_balanced_braces_Some [OF assms]
  have b: "p + 2 \<le> q" "q \<le> length t" "t ! p = lbrace" "t ! (q - 1) = rbrace"
    and c: "c = slice t (p + 1) (q - 1)" by simp_all
  have "slice t p q = slice t p (Suc p) @ slice t (Suc p) (q - 1) @ slice t (q - 1) q"
    using b(1) slice_append [of p "Suc p" q t] slice_append [of "Suc p" "q - 1" q t] by simp
  moreover have "slice t p (Suc p) = [lbrace]" using b by (simp add: slice_single)
  moreover have "slice t (q - 1) q = [rbrace]"
    using b slice_single [of "q - 1" t] by simp
  ultimately show ?thesis using c by (simp add: braced_def)
qed

lemma collect_args_slice:
  "collect_args t n args p = Some (args', e) \<Longrightarrow> p \<le> length t \<Longrightarrow>
     \<exists>new. args' = args @ new \<and> length new = n \<and> slice t p e = concat (map braced new)"
proof (induction n arbitrary: args p)
  case 0
  then show ?case by simp
next
  case (Suc n)
  from Suc.prems(1) obtain c q where f: "find_balanced_braces t p = Some (c, q)"
    and r: "collect_args t n (args @ [c]) q = Some (args', e)"
    by (auto split: option.splits)
  from find_balanced_braces_Some [OF f] have q: "p + 2 \<le> q" "q \<le> length t" by simp_all
  from Suc.IH [OF r q(2)] obtain new where new: "args' = (args @ [c]) @ new" "length new = n"
    "slice t q e = concat (map braced new)" by blast
  from collect_args_bounds [OF r q(2)] have "q \<le> e" by simp
  with q(1) have "slice t p e = slice t p q @ slice t q e"
    using slice_append [of p q e t] by simp
  with new find_balanced_braces_slice [OF f]
  have "args' = args @ (c # new) \<and> length (c # new) = Suc n
        \<and> slice t p e = concat (map braced (c # new))" by simp
  then show ?case by blast
qed

lemma collect_args_None:
  "collect_args t n args p = None \<longleftrightarrow>
     (\<exists>k<n. \<exists>args' q. collect_args t k args p = Some (args', q) \<and> find_balanced_braces t q = None)"
proof (induction n arbitrary: args p)
  case 0
  then show ?case by simp
next
  case (Suc n)
  show ?case
  proof (cases "find_balanced_braces t p")
    case None
    then have "collect_args t 0 args p = Some (args, p) \<and> find_balanced_braces t p = None" by simp
    then have "\<exists>k<Suc n. \<exists>args' q. collect_args t k args p = Some (args', q) \<and> find_balanced_braces t q = None"
      by blast
    with None show ?thesis by simp
  next
    case (Some a)
    obtain c q where a: "a = (c, q)" by (cases a)
    have "(\<exists>k<Suc n. \<exists>args' q'. collect_args t k args p = Some (args', q') \<and> find_balanced_braces t q' = None)
          \<longleftrightarrow> (\<exists>k<n. \<exists>args' q'. collect_args t (Suc k) args p = Some (args', q') \<and> find_balanced_braces t q' = None)"
      (is "?L \<longleftrightarrow> ?R")
    proof
      assume ?L
      then obtain k args' q' where k: "k < Suc n" "collect_args t k args p = Some (args', q')"
        "find_balanced_braces t q' = None" by blast
      with Some have "k \<noteq> 0" by (cases k) auto
      then obtain k' where "k = Suc k'" by (cases k) auto
      with k show ?R by auto
    next
      assume ?R
      then show ?L by auto
    qed
    with Some a Suc.IH [of "args @ [c]" q] show ?thesis by simp
  qed
qed

lemma iteration_well_formed:
  assumes "processed_text s = t" and "search cmds t = Some (start, match_end, name)"
    and "map_of cmds name = Some cmd"
    and "collect_args t (num_args cmd) [] match_end = Some (args, command_end_pos)"
    and "decide (handler s) cmd args = (action, h')"
  shows "iteration cmds decide s =
           Continue (s\<lparr>processed_text :=
                         take start t @ replacement_for action cmd args t start command_end_pos
                           @ drop command_end_pos t,
                       handler := h', asked := asked s @ [(name, args)],
                       passes := Suc (passes s)\<rparr>)"
  using assms by (simp add: iteration_def)

lemma iteration_malformed:
  assumes "processed_text s = t" and "search cmds t = Some (start, match_end, name)"
    and "map_of cmds name = Some cmd"
    and "collect_args t (num_args cmd) [] match_end = None"
  shows "iteration cmds decide s =
           Continue (s\<lparr>processed_text := take start t @ drop match_end t,
                       printed := printed s @ [warning name start],
                       passes := Suc (passes s)\<rparr>)"
  using assms by (simp add: iteration_def)

lemma iteration_Break:
  "iteration cmds decide s = Break \<longleftrightarrow> search cmds (processed_text s) = None"
  by (simp add: iteration_def Let_def split: option.splits prod.splits)

lemma process_loop_Break:
  "iteration cmds decide s = Break \<Longrightarrow> process_loop cmds decide s = Some (Inr s)"
  by (subst process_loop.simps) simp

lemma process_loop_Raise:
  "iteration cmds decide s = Raise e \<Longrightarrow> process_loop cmds decide s = Some (Inl e)"
  by (subst process_loop.simps) simp

lemma process_loop_Continue:
  "iteration cmds decide s = Continue s' \<Longrightarrow>
     process_loop cmds decide s = process_loop cmds decide s'"
  by (subst process_loop.simps) simp

lemma span_bounds:
  assumes "search cmds t = Some (start, match_end, name)"
    and "collect_args t n [] match_end = Some (args, command_end_pos)"
  shows "start < match_end \<and> match_end \<le> command_end_pos \<and> command_end_pos \<le> length t"
proof -
  from search_Some [OF assms(1)] have s: "start < match_end" "match_end \<le> length t" by simp_all
  from collect_args_bounds [OF assms(2) s(2)] s show ?thesis by simp
qed

section \<open>Python's integers and decimal numerals\<close>

lemma py_index_nat: "i < length xs \<Longrightarrow> py_index xs (int i) = Inr (xs ! i)"
  by (simp add: py_index_def)

lemma py_slice_nat:
  "a \<le> length xs \<Longrightarrow> b \<le> length xs \<Longrightarrow> py_slice xs (int a) (int b) = slice xs a b"
  by (simp add: py_slice_def min_def)

lemma scan_braces_py_nat:
  "scan_braces_py t (int i) b = Inr (map_option int (scan_braces t i b))"
proof (induction t i b rule: scan_braces.induct)
  case (1 t i balance)
  show ?case
  proof (cases "i < length t")
    case False
    then show ?thesis
      by (simp add: scan_braces.simps [of t i] scan_braces_py.simps [of t "int i"])
  next
    case True
    let ?b = "if t ! i = lbrace then balance + 1
              else if t ! i = rbrace then balance - 1 else balance"
    show ?thesis
    proof (cases "?b = 0")
      case z: True
      with True show ?thesis
        by (simp add: scan_braces.simps [of t i] scan_braces_py.simps [of t "int i"]
              py_index_nat Let_def)
    next
      case nz: False
      have e: "int (Suc i) = int i + 1" by simp
      note step = "1.IH" [OF True refl nz, unfolded e]
      from True nz step show ?thesis
        by (simp add: scan_braces.simps [of t i] scan_braces_py.simps [of t "int i"]
              py_index_nat Let_def)
    qed
  qed
qed

lemma scan_braces_bounds: "scan_braces t i b = Some j \<Longrightarrow> i \<le> j \<and> j < length t"
proof (induction t i b rule: scan_braces.induct)
  case (1 t i balance)
  then show ?case
    by (subst (asm) scan_braces.simps) (auto simp: Let_def split: if_splits dest: Suc_leD)
qed

lemma find_balanced_braces_py_nat:
  "find_balanced_braces_py t (int p)
     = Inr (map_option (\<lambda>(content, end_pos). (content, int end_pos)) (find_balanced_braces t p))"
proof (cases "p < length t \<and> t ! p = lbrace")
  case False
  then show ?thesis
    by (auto simp: find_balanced_braces_py_def find_balanced_braces_def py_index_nat)
next
  case True
  show ?thesis
  proof (cases "scan_braces t p 0")
    case None
    with True show ?thesis
      by (simp add: find_balanced_braces_py_def find_balanced_braces_def py_index_nat
            scan_braces_py_nat)
  next
    case (Some i)
    from scan_braces_bounds [OF Some] True have b: "p + 1 \<le> length t" "i \<le> length t"
      by simp_all
    have e: "int (p + 1) = int p + 1" by simp
    note sl = py_slice_nat [OF b, unfolded e]
    from True Some sl show ?thesis
      by (simp add: find_balanced_braces_py_def find_balanced_braces_def py_index_nat
            scan_braces_py_nat)
  qed
qed

lemmas matcher_py_eval =
  find_balanced_braces_py_def scan_braces_py.simps py_index_def py_slice_def
  lbrace_def rbrace_def slice_def

lemma digit_value: "d < 10 \<Longrightarrow> of_char (digit d) - 48 = d \<and> is_digit (digit d)"
proof -
  assume "d < 10"
  then have "d \<in> {0, 1, 2, 3, 4, 5, 6, 7, 8, 9}" by auto
  then show ?thesis by (auto simp: digit_def is_digit_def)
qed

lemma decimal_value_snoc:
  "decimal_value (ds @ [c]) = 10 * decimal_value ds + (of_char c - 48)"
  by (simp add: decimal_value_def)

lemma str_nat_decimal:
  "decimal_value (str_nat n) = n \<and> list_all is_digit (str_nat n) \<and> str_nat n \<noteq> []"
proof (induction n rule: str_nat.induct)
  case (1 n)
  show ?case
  proof (cases "n < 10")
    case True
    with digit_value [of n] show ?thesis
      by (simp add: str_nat.simps [of n] decimal_value_def)
  next
    case False
    from "1.IH" [OF False] digit_value [of "n mod 10"] False show ?thesis
      by (simp add: str_nat.simps [of n] decimal_value_snoc)
  qed
qed

lemma str_nat_no_leading_zero: "0 < n \<Longrightarrow> hd (str_nat n) \<noteq> CHR ''0''"
proof (induction n rule: str_nat.induct)
  case (1 n)
  show ?case
  proof (cases "n < 10")
    case True
    with "1.prems" have "n \<in> {1, 2, 3, 4, 5, 6, 7, 8, 9}" by auto
    then show ?thesis by (auto simp: str_nat.simps [of n] digit_def)
  next
    case False
    then have "0 < n div 10" by simp
    from "1.IH" [OF False this] str_nat_decimal [of "n div 10"] False show ?thesis
      by (simp add: str_nat.simps [of n])
  qed
qed

section \<open>The brace matcher meets its contract\<close>

text \<open>
  Claim C3, as amended. For every buffer and every position \<open>pos \<ge> 0\<close>, the brace
  matcher computes what the contract \<open>match_braces\<close> describes: it fails exactly when the
  position is out of range, or the character there is not an opening brace, or the
  nesting counted from the position never returns to zero before the buffer ends;
  otherwise it returns the text strictly between the opening brace and the first offset
  at which the nesting is back at zero, with the offset one past it.
\<close>

theorem find_balanced_braces_py_contract:
  assumes "0 \<le> pos"
  shows "find_balanced_braces_py t pos
           = Inr (map_option (\<lambda>(content, end_pos). (content, int end_pos))
                    (match_braces t (nat pos)))
         \<and> (find_balanced_braces_py t pos = Inr None \<longleftrightarrow>
              (int (length t) \<le> pos \<or> t ! nat pos \<noteq> lbrace
               \<or> (\<forall>i. nat pos \<le> i \<and> i < length t \<longrightarrow> nesting t (nat pos) i \<noteq> 0)))"
proof -
  from assms have p: "pos = int (nat pos)" by simp
  have eq: "find_balanced_braces_py t pos
           = Inr (map_option (\<lambda>(content, end_pos). (content, int end_pos))
                    (match_braces t (nat pos)))"
    using find_balanced_braces_py_nat [of t "nat pos"] p
    by (simp add: find_balanced_braces_spec)
  have m: "matching_close t (nat pos) = None \<longleftrightarrow>
             (\<forall>i. nat pos \<le> i \<and> i < length t \<longrightarrow> nesting t (nat pos) i \<noteq> 0)"
    by (auto simp: matching_close_def find_None_iff)
  have "match_braces t (nat pos) = None \<longleftrightarrow>
          (length t \<le> nat pos \<or> t ! nat pos \<noteq> lbrace \<or> matching_close t (nat pos) = None)"
    by (auto simp: match_braces_def split: option.splits)
  moreover from assms have "length t \<le> nat pos \<longleftrightarrow> int (length t) \<le> pos" by auto
  ultimately show ?thesis using eq m by simp
qed

theorem find_balanced_braces_py_contract_witness:
  "(0::int) \<le> 1
   \<and> find_balanced_braces_py ''a{b{c}d}e{f}'' 1 = Inr (Some (''b{c}d'', 8))
   \<and> match_braces ''a{b{c}d}e{f}'' (nat 1) = Some (''b{c}d'', 8)
   \<and> find_balanced_braces_py ''{a{}'' 0 = Inr None
   \<and> nesting ''{a{}'' 0 0 \<noteq> 0 \<and> nesting ''{a{}'' 0 3 \<noteq> 0"
proof -
  have a: "find_balanced_braces_py ''a{b{c}d}e{f}'' 1 = Inr (Some (''b{c}d'', 8))"
    by (simp add: matcher_py_eval)
  have b: "find_balanced_braces_py ''{a{}'' 0 = Inr None"
    by (simp add: matcher_py_eval)
  from find_balanced_braces_py_contract [of 1 "''a{b{c}d}e{f}''"] a
  have c: "match_braces ''a{b{c}d}e{f}'' (nat 1) = Some (''b{c}d'', 8)"
    by (auto simp: map_option_case split: option.splits)
  have "\<not> int (length ''{a{}'') \<le> 0" and "\<not> ''{a{}'' ! nat 0 \<noteq> lbrace"
    by (simp_all add: lbrace_def)
  with find_balanced_braces_py_contract [of 0 "''{a{}''"] b
  have d: "\<forall>i. nat 0 \<le> i \<and> i < length ''{a{}'' \<longrightarrow> nesting ''{a{}'' (nat 0) i \<noteq> 0"
    by blast
  have "(0::nat) < length ''{a{}''" and "(3::nat) < length ''{a{}''" by simp_all
  with d have "nesting ''{a{}'' 0 0 \<noteq> 0" "nesting ''{a{}'' 0 3 \<noteq> 0" by auto
  with a b c show ?thesis by simp
qed

text \<open>
  Claim C3 as stated, for every position, fails at negative ones. Python reads a
  negative position from the end of the buffer: at \<open>-1\<close> in \<^verbatim>\<open>ab}{\<close> the matcher starts
  on the last character, an opening brace, goes on at offset 0 and returns \<^verbatim>\<open>ab\<close> with
  end position 3, though no closing brace follows that opening brace. In the empty
  buffer the position \<open>-1\<close> is out of range, and the matcher raises \<^verbatim>\<open>IndexError\<close>
  instead of returning the failure pair.
\<close>

theorem negative_position_is_no_failure:
  "find_balanced_braces_py ''ab}{'' (- 1) = Inr (Some (''ab'', 3))
   \<and> find_balanced_braces_py [] (- 1) = Inl IndexError"
  by (simp add: matcher_py_eval)

text \<open>
  Claim C10. A successful match ends at least two characters behind its start and inside
  the text, the character before the end position is a closing brace, and the content is
  the slice between the two braces. Hence, behind a match of the command pattern,
  collecting \<open>n\<close> arguments moves the position forward by at least \<open>2 * n\<close> and never
  past the end of the buffer.
\<close>

theorem find_balanced_braces_advances:
  "(find_balanced_braces t pos = Some (content, end_pos) \<longrightarrow>
      pos + 2 \<le> end_pos \<and> end_pos \<le> length t \<and> t ! (end_pos - 1) = rbrace
      \<and> content = slice t (pos + 1) (end_pos - 1))
   \<and> (search cmds t = Some (start, match_end, name)
        \<and> collect_args t n [] match_end = Some (args, command_end_pos) \<longrightarrow>
      start < match_end \<and> match_end + 2 * n \<le> command_end_pos
      \<and> command_end_pos \<le> length t)"
proof (rule conjI; rule impI)
  assume "find_balanced_braces t pos = Some (content, end_pos)"
  from find_balanced_braces_Some [OF this]
  show "pos + 2 \<le> end_pos \<and> end_pos \<le> length t \<and> t ! (end_pos - 1) = rbrace
      \<and> content = slice t (pos + 1) (end_pos - 1)" by simp
next
  assume a: "search cmds t = Some (start, match_end, name)
        \<and> collect_args t n [] match_end = Some (args, command_end_pos)"
  from search_Some [of cmds t start match_end name] a
  have s: "start < match_end" "match_end \<le> length t" by simp_all
  from collect_args_bounds [of t n "[]" match_end args command_end_pos] a s(2)
  have "match_end + 2 * n \<le> command_end_pos" "command_end_pos \<le> length t" by simp_all
  with s show "start < match_end \<and> match_end + 2 * n \<le> command_end_pos
      \<and> command_end_pos \<le> length t" by simp
qed

theorem find_balanced_braces_advances_witness:
  "find_balanced_braces (backslash # ''added{ab}'') 6 = Some (''ab'', 10)
   \<and> (6::nat) + 2 \<le> 10 \<and> (backslash # ''added{ab}'') ! (10 - 1) = rbrace
   \<and> ''ab'' = slice (backslash # ''added{ab}'') (6 + 1) (10 - 1)
   \<and> search added_only (backslash # ''added{ab}'') = Some (0, 6, ''added'')
   \<and> collect_args (backslash # ''added{ab}'') 1 [] 6 = Some ([''ab''], 10)
   \<and> (0::nat) < 6 \<and> (6::nat) + 2 * 1 \<le> 10 \<and> 10 \<le> length (backslash # ''added{ab}'')"
proof -
  have a: "find_balanced_braces (backslash # ''added{ab}'') 6 = Some (''ab'', 10)"
    by (simp add: matcher_eval backslash_def)
  have b: "search added_only (backslash # ''added{ab}'') = Some (0, 6, ''added'')"
    by (simp add: added_only_def pattern_eval)
  have c: "collect_args (backslash # ''added{ab}'') 1 [] 6 = Some ([''ab''], 10)"
    by (simp add: matcher_eval backslash_def)
  from find_balanced_braces_advances
         [where t = "backslash # ''added{ab}''" and pos = 6 and content = "''ab''"
            and end_pos = 10 and cmds = added_only and start = 0 and match_end = 6
            and name = "''added''" and n = 1 and args = "[''ab'']" and command_end_pos = 10]
       a b c
  show ?thesis by blast
qed

section \<open>The decision and the splice\<close>

lemma added_example_search:
  "search added_only (''Hello '' @ backslash # ''added{new text} world.'') = Some (6, 12, ''added'')"
  by (simp add: added_only_def pattern_eval)

lemma added_example_args:
  "collect_args (''Hello '' @ backslash # ''added{new text} world.'') 1 [] 12
     = Some ([''new text''], 22)"
  by (simp add: matcher_eval backslash_def)

text \<open>
  Claim C5. When all arguments of an occurrence have been extracted, the pass asks the
  decision source once and continues with the buffer (text before the match start) +
  (replacement) + (text after the last consumed position), where the replacement is the
  accept-transform of the arguments for accept, the reject-transform for reject, and
  for keep the slice of the buffer from the match start to the end of the last argument.
  The arguments are as many as the command declares, and they are the brace groups that
  stand in the buffer behind the match, in order.
\<close>

theorem decision_to_replacement:
  assumes "processed_text s = t" and "search cmds t = Some (start, match_end, name)"
    and "map_of cmds name = Some cmd"
    and "collect_args t (num_args cmd) [] match_end = Some (args, command_end_pos)"
    and "decide (handler s) cmd args = (action, h')"
  shows "\<exists>replacement.
           iteration cmds decide s =
             Continue (s\<lparr>processed_text :=
                           take start t @ replacement @ drop command_end_pos t,
                         handler := h', asked := asked s @ [(name, args)],
                         passes := Suc (passes s)\<rparr>)
           \<and> (action = ''a'' \<longrightarrow> replacement = accept cmd args)
           \<and> (action = ''r'' \<longrightarrow> replacement = reject cmd args)
           \<and> (action = ''k'' \<longrightarrow> replacement = slice t start command_end_pos)
           \<and> length args = num_args cmd
           \<and> slice t match_end command_end_pos = concat (map braced args)"
proof -
  from search_Some [OF assms(2)] have "match_end \<le> length t" by simp
  from collect_args_slice [OF assms(4) this]
  have "length args = num_args cmd"
    and "slice t match_end command_end_pos = concat (map braced args)" by auto
  with iteration_well_formed [where decide = decide, OF assms] show ?thesis
    by (intro exI [of _ "replacement_for action cmd args t start command_end_pos"])
       (simp add: replacement_for_def)
qed

theorem decision_to_replacement_witness:
  "iteration added_only (always ''a'') (start_run (''Hello '' @ backslash # ''added{new text} world.'') ())
     = Continue \<lparr>processed_text = ''Hello new text world.'', handler = (),
                 printed = [], asked = [(''added'', [''new text''])], passes = 1\<rparr>
   \<and> iteration added_only (always ''k'') (start_run (''Hello '' @ backslash # ''added{new text} world.'') ())
     = Continue \<lparr>processed_text = ''Hello '' @ backslash # ''added{new text} world.'', handler = (),
                 printed = [], asked = [(''added'', [''new text''])], passes = 1\<rparr>"
proof -
  let ?t = "''Hello '' @ backslash # ''added{new text} world.''"
  let ?cmd = "\<lparr>num_args = 1, accept = hd, reject = (\<lambda>_. [])\<rparr>"
  have t: "processed_text (start_run ?t ()) = ?t" by (simp add: start_run_def)
  have m: "map_of added_only ''added'' = Some ?cmd" by (simp add: added_only_def)
  have c: "collect_args ?t (num_args ?cmd) [] 12 = Some ([''new text''], 22)"
    using added_example_args by simp
  have da: "always ''a'' (handler (start_run ?t ())) ?cmd [''new text''] = (''a'', ())"
    and dk: "always ''k'' (handler (start_run ?t ())) ?cmd [''new text''] = (''k'', ())"
    by (simp_all add: always_def)
  from decision_to_replacement [where decide = "always ''a''", OF t added_example_search m c da]
  have a: "iteration added_only (always ''a'') (start_run ?t ())
     = Continue \<lparr>processed_text = ''Hello new text world.'', handler = (),
                 printed = [], asked = [(''added'', [''new text''])], passes = 1\<rparr>"
    by (auto simp: start_run_def)
  from decision_to_replacement [where decide = "always ''k''", OF t added_example_search m c dk]
  have k: "iteration added_only (always ''k'') (start_run ?t ())
     = Continue \<lparr>processed_text = ?t, handler = (),
                 printed = [], asked = [(''added'', [''new text''])], passes = 1\<rparr>"
    by (auto simp: start_run_def slice_def)
  from a k show ?thesis by simp
qed

text \<open>
  Claim C6. For a decision that is none of accept, reject and keep, the pass removes
  the span of the command, from the match start through its last argument, and puts
  nothing in its place; the text before and behind the span is kept as it is, and the
  span lies inside the buffer.
\<close>

theorem unknown_decision_removes_span:
  assumes "processed_text s = t" and "search cmds t = Some (start, match_end, name)"
    and "map_of cmds name = Some cmd"
    and "collect_args t (num_args cmd) [] match_end = Some (args, command_end_pos)"
    and "decide (handler s) cmd args = (action, h')"
    and "action \<notin> {''a'', ''r'', ''k''}"
  shows "iteration cmds decide s =
           Continue (s\<lparr>processed_text := take start t @ drop command_end_pos t,
                       handler := h', asked := asked s @ [(name, args)],
                       passes := Suc (passes s)\<rparr>)
         \<and> start < command_end_pos \<and> command_end_pos \<le> length t
         \<and> t = take start t @ slice t start command_end_pos @ drop command_end_pos t
         \<and> length (take start t @ drop command_end_pos t) + (command_end_pos - start) = length t"
proof -
  from span_bounds [OF assms(2) assms(4)]
  have b: "start < command_end_pos" "command_end_pos \<le> length t" by simp_all
  have "replacement_for action cmd args t start command_end_pos = []"
    using assms(6) by (simp add: replacement_for_def)
  with iteration_well_formed [where decide = decide, OF assms(1-5)] b text_split [of start command_end_pos t]
  show ?thesis by simp
qed

theorem unknown_decision_removes_span_witness:
  "''x'' \<notin> {''a'', ''r'', ''k''}
   \<and> iteration added_only (always ''x'') (start_run (''Hello '' @ backslash # ''added{new text} world.'') ())
     = Continue \<lparr>processed_text = ''Hello  world.'', handler = (),
                 printed = [], asked = [(''added'', [''new text''])], passes = 1\<rparr>"
proof -
  let ?t = "''Hello '' @ backslash # ''added{new text} world.''"
  let ?cmd = "\<lparr>num_args = 1, accept = hd, reject = (\<lambda>_. [])\<rparr>"
  have t: "processed_text (start_run ?t ()) = ?t" by (simp add: start_run_def)
  have m: "map_of added_only ''added'' = Some ?cmd" by (simp add: added_only_def)
  have c: "collect_args ?t (num_args ?cmd) [] 12 = Some ([''new text''], 22)"
    using added_example_args by simp
  have d: "always ''x'' (handler (start_run ?t ())) ?cmd [''new text''] = (''x'', ())"
    by (simp add: always_def)
  have x: "''x'' \<notin> {''a'', ''r'', ''k''}" by simp
  from unknown_decision_removes_span [where decide = "always ''x''", OF t added_example_search m c d x] x
  show ?thesis by (simp add: start_run_def)
qed

text \<open>
  Claim C9. For the decision keep, the replacement is the replaced span itself,
  character for character, so the pass leaves the buffer as it found it: only the state
  of the decision source, the record of its calls and the pass count change.
\<close>

theorem keep_splice_identity:
  assumes "processed_text s = t" and "search cmds t = Some (start, match_end, name)"
    and "map_of cmds name = Some cmd"
    and "collect_args t (num_args cmd) [] match_end = Some (args, command_end_pos)"
    and "decide (handler s) cmd args = (''k'', h')"
  shows "replacement_for ''k'' cmd args t start command_end_pos = slice t start command_end_pos
         \<and> length (slice t start command_end_pos) = command_end_pos - start
         \<and> iteration cmds decide s =
             Continue (s\<lparr>handler := h', asked := asked s @ [(name, args)],
                         passes := Suc (passes s)\<rparr>)
         \<and> (\<exists>s'. iteration cmds decide s = Continue s' \<and> processed_text s' = processed_text s)"
proof -
  from span_bounds [OF assms(2) assms(4)]
  have b: "start < command_end_pos" "command_end_pos \<le> length t" by simp_all
  have r: "replacement_for ''k'' cmd args t start command_end_pos = slice t start command_end_pos"
    by (simp add: replacement_for_def)
  have l: "length (slice t start command_end_pos) = command_end_pos - start"
    using b by (simp add: slice_def)
  have "take start t @ slice t start command_end_pos @ drop command_end_pos t = t"
    using b by (simp add: text_split)
  with iteration_well_formed [where decide = decide, OF assms] r assms(1)
  have i: "iteration cmds decide s =
             Continue (s\<lparr>handler := h', asked := asked s @ [(name, args)],
                         passes := Suc (passes s)\<rparr>)" by simp
  then have "\<exists>s'. iteration cmds decide s = Continue s' \<and> processed_text s' = processed_text s"
    by simp
  with r l i show ?thesis by simp
qed

theorem keep_splice_identity_witness:
  "iteration added_only (always ''k'') (start_run (''Hello '' @ backslash # ''added{new text} world.'') ())
     = Continue ((start_run (''Hello '' @ backslash # ''added{new text} world.'') ())
                  \<lparr>handler := (), asked := [(''added'', [''new text''])], passes := 1\<rparr>)
   \<and> slice (''Hello '' @ backslash # ''added{new text} world.'') 6 22 = backslash # ''added{new text}''"
proof -
  let ?t = "''Hello '' @ backslash # ''added{new text} world.''"
  let ?cmd = "\<lparr>num_args = 1, accept = hd, reject = (\<lambda>_. [])\<rparr>"
  have t: "processed_text (start_run ?t ()) = ?t" by (simp add: start_run_def)
  have m: "map_of added_only ''added'' = Some ?cmd" by (simp add: added_only_def)
  have c: "collect_args ?t (num_args ?cmd) [] 12 = Some ([''new text''], 22)"
    using added_example_args by simp
  have d: "always ''k'' (handler (start_run ?t ())) ?cmd [''new text''] = (''k'', ())"
    by (simp add: always_def)
  have "slice ?t 6 22 = backslash # ''added{new text}''" by (simp add: slice_def)
  with keep_splice_identity [where decide = "always ''k''", OF t added_example_search m c d]
  show ?thesis by (simp add: start_run_def)
qed

section \<open>Runs of the whole loop\<close>

text \<open>
  Claim C8. On a text with no occurrence of a recognized command name, \<^verbatim>\<open>process\<close>
  returns at once: the text is unchanged, the decision source has not been called and
  nothing has been printed.
\<close>

theorem clean_input_unchanged:
  assumes "occurrences cmds t = []"
  shows "process cmds decide t h = Some (Inr (start_run t h))
         \<and> processed_text (start_run t h) = t \<and> asked (start_run t h) = []"
proof -
  from assms have "search cmds t = None" by (simp only: search_None)
  then have "iteration cmds decide (start_run t h) = Break"
    by (simp add: iteration_Break start_run_def)
  from process_loop_Break [OF this] show ?thesis
    by (simp add: process_def start_run_def)
qed

theorem clean_input_unchanged_witness:
  "occurrences added_only (''Hello '' @ backslash # ''textbf{world}.'') = []
   \<and> process added_only (always ''a'') (''Hello '' @ backslash # ''textbf{world}.'') ()
       = Some (Inr \<lparr>processed_text = ''Hello '' @ backslash # ''textbf{world}.'', handler = (),
                     printed = [], asked = [], passes = 0\<rparr>)"
proof -
  have "search added_only (''Hello '' @ backslash # ''textbf{world}.'') = None"
    by (simp add: added_only_def pattern_eval)
  then have o: "occurrences added_only (''Hello '' @ backslash # ''textbf{world}.'') = []"
    by (simp only: search_None)
  from clean_input_unchanged [OF o, of "always ''a''" "()"] o show ?thesis
    by (simp add: start_run_def)
qed

text \<open>
  Claim C7. On \<^verbatim>\<open>Hello \added{new text} world.\<close>, with the one-argument command
  \<^verbatim>\<open>added\<close>, a decision source that always accepts gives
  \<^verbatim>\<open>Hello new text world.\<close>, and one that always rejects gives \<^verbatim>\<open>Hello  world.\<close>
  with both spaces; the decision source is asked once, about the argument
  \<^verbatim>\<open>new text\<close>.
\<close>

theorem hello_added_scenarios:
  "process added_only (always ''a'') (''Hello '' @ backslash # ''added{new text} world.'') h
     = Some (Inr \<lparr>processed_text = ''Hello new text world.'', handler = h, printed = [],
                   asked = [(''added'', [''new text''])], passes = 1\<rparr>)
   \<and> process added_only (always ''r'') (''Hello '' @ backslash # ''added{new text} world.'') h
     = Some (Inr \<lparr>processed_text = ''Hello  world.'', handler = h, printed = [],
                   asked = [(''added'', [''new text''])], passes = 1\<rparr>)"
proof -
  let ?t = "''Hello '' @ backslash # ''added{new text} world.''"
  let ?cmd = "\<lparr>num_args = 1, accept = hd, reject = (\<lambda>_. [])\<rparr>"
  let ?a = "\<lparr>processed_text = ''Hello new text world.'', handler = h, printed = [],
             asked = [(''added'', [''new text''])], passes = 1\<rparr>"
  let ?r = "\<lparr>processed_text = ''Hello  world.'', handler = h, printed = [],
             asked = [(''added'', [''new text''])], passes = 1\<rparr>"
  have t: "processed_text (start_run ?t h) = ?t" by (simp add: start_run_def)
  have m: "map_of added_only ''added'' = Some ?cmd" by (simp add: added_only_def)
  have c: "collect_args ?t (num_args ?cmd) [] 12 = Some ([''new text''], 22)"
    using added_example_args by simp
  have "iteration added_only (always ''a'') (start_run ?t h) = Continue ?a"
    using iteration_well_formed [where decide = "always ''a''" and action = "''a''" and h' = h,
            OF t added_example_search m c]
    by (simp add: always_def start_run_def replacement_for_def)
  moreover have "iteration added_only (always ''a'') ?a = Break"
    by (simp add: iteration_Break added_only_def pattern_eval)
  ultimately have a: "process added_only (always ''a'') ?t h = Some (Inr ?a)"
    by (simp add: process_def process_loop_Continue process_loop_Break)
  have "iteration added_only (always ''r'') (start_run ?t h) = Continue ?r"
    using iteration_well_formed [where decide = "always ''r''" and action = "''r''" and h' = h,
            OF t added_example_search m c]
    by (simp add: always_def start_run_def replacement_for_def)
  moreover have "iteration added_only (always ''r'') ?r = Break"
    by (simp add: iteration_Break added_only_def pattern_eval)
  ultimately have r: "process added_only (always ''r'') ?t h = Some (Inr ?r)"
    by (simp add: process_def process_loop_Continue process_loop_Break)
  from a r show ?thesis by simp
qed

lemma search_span:
  assumes "search cmds t = Some (start, match_end, name)"
  shows "slice t start match_end
           = backslash # name @ slice t (start + 1 + length name) match_end
         \<and> start + 1 + length name \<le> match_end"
proof -
  let ?u = "drop start t"
  from search_from_Some [OF assms [unfolded search_def]]
  have b: "start < match_end" "match_end \<le> length t"
    and m: "match_at (command_names cmds) ?u = Some (name, match_end - start)" by simp_all
  from match_at_Some [OF m] have u: "?u \<noteq> []" "hd ?u = backslash" "prefix name (tl ?u)"
    and l: "length name < match_end - start" by simp_all
  from u(3) obtain r where r: "tl ?u = name @ r" by (auto simp: prefix_def)
  with u(1,2) have ur: "?u = backslash # name @ r" by (cases ?u) auto
  have "drop (start + 1 + length name) t = drop (1 + length name) ?u"
    by (simp add: add.commute add.left_commute)
  also have "\<dots> = r" by (simp add: ur)
  finally have dr: "drop (start + 1 + length name) t = r" .
  from l have k: "match_end - start = Suc (length name + (match_end - (start + 1 + length name)))"
    by simp
  have "slice t start match_end = take (match_end - start) ?u" by (simp add: slice_def)
  also have "\<dots> = backslash # name @ take (match_end - (start + 1 + length name)) r"
    unfolding k ur by simp
  finally show ?thesis using dr l by (simp add: slice_def)
qed

text \<open>
  Claim C4. When one of the expected brace groups of an occurrence cannot be extracted,
  the pass deletes the matched text of the command and nothing else: the slice from
  \<^verbatim>\<open>match.start()\<close> to \<^verbatim>\<open>match.end()\<close>, which is the escape marker, the command name
  and whatever the pattern matched behind the name. It prints the line
  \<^verbatim>\<open>Warning: Malformed command '\NAME' at position START. Skipping.\<close> with the command
  name and with the start offset as a decimal numeral without leading zeros, leaves the
  decision source alone and goes on with the next pass. On \<^verbatim>\<open>\cmdname{unbalanced\<close>, for
  a command that expects an argument, \<^verbatim>\<open>process\<close> returns \<^verbatim>\<open>{unbalanced\<close>, in which no
  occurrence is left, after one warning.
\<close>

theorem malformed_recovery:
  "(processed_text s = t \<and> search cmds t = Some (start, match_end, name)
      \<and> map_of cmds name = Some cmd
      \<and> (\<exists>k<num_args cmd. \<exists>args q. collect_args t k [] match_end = Some (args, q)
             \<and> find_balanced_braces t q = None)
    \<longrightarrow> iteration cmds decide s =
          Continue (s\<lparr>processed_text := take start t @ drop match_end t,
                      printed := printed s
                        @ [''Warning: Malformed command '' @ [CHR 0x27, backslash] @ name
                             @ [CHR 0x27] @ '' at position '' @ str_nat start @ ''. Skipping.''],
                      passes := Suc (passes s)\<rparr>)
        \<and> decimal_value (str_nat start) = start \<and> list_all is_digit (str_nat start)
        \<and> (0 < start \<longrightarrow> hd (str_nat start) \<noteq> CHR ''0'')
        \<and> slice t start match_end
             = backslash # name @ slice t (start + 1 + length name) match_end
        \<and> take start t @ slice t start match_end @ drop match_end t = t)
   \<and> (0 < num_args c
    \<longrightarrow> process [(''cmdname'', c)] decide (backslash # ''cmdname{unbalanced'') h
          = Some (Inr \<lparr>processed_text = ''{unbalanced'', handler = h,
                        printed = [''Warning: Malformed command '' @ [CHR 0x27, backslash]
                                     @ ''cmdname'' @ [CHR 0x27] @ '' at position 0. Skipping.''],
                        asked = [], passes = 1\<rparr>)
        \<and> occurrences [(''cmdname'', c)] ''{unbalanced'' = [])"
proof (rule conjI; rule impI)
  assume a: "processed_text s = t \<and> search cmds t = Some (start, match_end, name)
      \<and> map_of cmds name = Some cmd
      \<and> (\<exists>k<num_args cmd. \<exists>args q. collect_args t k [] match_end = Some (args, q)
             \<and> find_balanced_braces t q = None)"
  then have se: "search cmds t = Some (start, match_end, name)" by simp
  from a have "collect_args t (num_args cmd) [] match_end = None"
    by (simp only: collect_args_None)
  with a iteration_malformed [of s t cmds start match_end name cmd decide]
  have "iteration cmds decide s =
          Continue (s\<lparr>processed_text := take start t @ drop match_end t,
                      printed := printed s @ [warning name start],
                      passes := Suc (passes s)\<rparr>)" by blast
  then have i: "iteration cmds decide s =
          Continue (s\<lparr>processed_text := take start t @ drop match_end t,
                      printed := printed s
                        @ [''Warning: Malformed command '' @ [CHR 0x27, backslash] @ name
                             @ [CHR 0x27] @ '' at position '' @ str_nat start @ ''. Skipping.''],
                      passes := Suc (passes s)\<rparr>)"
    by (simp add: warning_def)
  from search_Some [OF se] have "start \<le> match_end" by simp
  then have sp: "take start t @ slice t start match_end @ drop match_end t = t"
    by (rule text_split)
  from search_span [OF se]
  have sl: "slice t start match_end
             = backslash # name @ slice t (start + 1 + length name) match_end" by simp
  have z: "0 < start \<longrightarrow> hd (str_nat start) \<noteq> CHR ''0''"
    using str_nat_no_leading_zero by blast
  from i str_nat_decimal [of start] z sl sp
  show "iteration cmds decide s =
          Continue (s\<lparr>processed_text := take start t @ drop match_end t,
                      printed := printed s
                        @ [''Warning: Malformed command '' @ [CHR 0x27, backslash] @ name
                             @ [CHR 0x27] @ '' at position '' @ str_nat start @ ''. Skipping.''],
                      passes := Suc (passes s)\<rparr>)
        \<and> decimal_value (str_nat start) = start \<and> list_all is_digit (str_nat start)
        \<and> (0 < start \<longrightarrow> hd (str_nat start) \<noteq> CHR ''0'')
        \<and> slice t start match_end
             = backslash # name @ slice t (start + 1 + length name) match_end
        \<and> take start t @ slice t start match_end @ drop match_end t = t"
    by blast
next
  assume n: "0 < num_args c"
  let ?t = "backslash # ''cmdname{unbalanced''"
  let ?cmds = "[(''cmdname'', c)]"
  let ?s = "\<lparr>processed_text = ''{unbalanced'', handler = h,
              printed = [warning ''cmdname'' 0], asked = [], passes = 1\<rparr>"
  have s: "search ?cmds ?t = Some (0, 8, ''cmdname'')"
    by (simp add: pattern_eval)
  have "find_balanced_braces ?t 8 = None"
    by (simp add: matcher_eval backslash_def)
  then have "collect_args ?t (num_args c) [] 8 = None"
    using n by (cases "num_args c") simp_all
  from iteration_malformed [of "start_run ?t h" ?t ?cmds 0 8 "''cmdname''" c decide, OF _ s _ this]
  have 1: "iteration ?cmds decide (start_run ?t h) = Continue ?s"
    by (simp add: start_run_def)
  have e: "search ?cmds ''{unbalanced'' = None"
    by (simp add: pattern_eval)
  then have 2: "iteration ?cmds decide ?s = Break"
    by (simp add: iteration_Break)
  have w: "warning ''cmdname'' 0 = ''Warning: Malformed command '' @ [CHR 0x27, backslash]
                                     @ ''cmdname'' @ [CHR 0x27] @ '' at position 0. Skipping.''"
    by (simp add: warning_def str_nat.simps digit_def)
  from e have o: "occurrences ?cmds ''{unbalanced'' = []" by (simp only: search_None)
  from 1 2 have "process ?cmds decide ?t h = Some (Inr ?s)"
    by (simp add: process_def process_loop_Continue process_loop_Break)
  with w o show "process ?cmds decide ?t h
          = Some (Inr \<lparr>processed_text = ''{unbalanced'', handler = h,
                        printed = [''Warning: Malformed command '' @ [CHR 0x27, backslash]
                                     @ ''cmdname'' @ [CHR 0x27] @ '' at position 0. Skipping.''],
                        asked = [], passes = 1\<rparr>)
        \<and> occurrences ?cmds ''{unbalanced'' = []" by simp
qed

theorem malformed_recovery_witness:
  "search [(''added'', \<lparr>num_args = 2, accept = hd, reject = (\<lambda>_. [])\<rparr>)]
       (''0123456789 '' @ backslash # ''added [x]{b}{c d'') = Some (11, 21, ''added'')
   \<and> collect_args (''0123456789 '' @ backslash # ''added [x]{b}{c d'') 1 [] 21 = Some ([''b''], 24)
   \<and> find_balanced_braces (''0123456789 '' @ backslash # ''added [x]{b}{c d'') 24 = None
   \<and> iteration [(''added'', \<lparr>num_args = 2, accept = hd, reject = (\<lambda>_. [])\<rparr>)] (always ''a'')
         (start_run (''0123456789 '' @ backslash # ''added [x]{b}{c d'') ())
       = Continue \<lparr>processed_text = ''0123456789 {b}{c d'', handler = (),
                    printed = [''Warning: Malformed command '' @ [CHR 0x27, backslash]
                                 @ ''added'' @ [CHR 0x27] @ '' at position 11. Skipping.''],
                    asked = [], passes = 1\<rparr>
   \<and> slice (''0123456789 '' @ backslash # ''added [x]{b}{c d'') 11 21 = backslash # ''added [x]''
   \<and> process [(''cmdname'', \<lparr>num_args = 1, accept = hd, reject = (\<lambda>_. [])\<rparr>)] (always ''a'')
         (backslash # ''cmdname{unbalanced'') ()
       = Some (Inr \<lparr>processed_text = ''{unbalanced'', handler = (),
                     printed = [''Warning: Malformed command '' @ [CHR 0x27, backslash]
                                  @ ''cmdname'' @ [CHR 0x27] @ '' at position 0. Skipping.''],
                     asked = [], passes = 1\<rparr>)"
proof -
  let ?t = "''0123456789 '' @ backslash # ''added [x]{b}{c d''"
  let ?cmd = "\<lparr>num_args = 2, accept = hd, reject = (\<lambda>_. [])\<rparr>"
  let ?cmds = "[(''added'', ?cmd)]"
  let ?c1 = "\<lparr>num_args = 1, accept = hd, reject = (\<lambda>_. [])\<rparr>"
  have s: "search ?cmds ?t = Some (11, 21, ''added'')"
    by (simp add: pattern_eval)
  have c1: "collect_args ?t 1 [] 21 = Some ([''b''], 24)"
    by (simp add: matcher_eval backslash_def)
  have f1: "find_balanced_braces ?t 24 = None"
    by (simp add: matcher_eval backslash_def)
  have ex: "\<exists>k<num_args ?cmd. \<exists>args q. collect_args ?t k [] 21 = Some (args, q)
             \<and> find_balanced_braces ?t q = None"
    using c1 f1 by (intro exI [of _ 1]) simp
  have m: "map_of ?cmds ''added'' = Some ?cmd" by simp
  have p: "processed_text (start_run ?t ()) = ?t" by (simp add: start_run_def)
  have d: "str_nat 11 = ''11''" by (simp add: str_nat.simps digit_def)
  have sl: "slice ?t 11 21 = backslash # ''added [x]''" by (simp add: slice_def)
  note inst = malformed_recovery [where s = "start_run ?t ()" and t = ?t and cmds = ?cmds
      and start = 11 and match_end = 21 and name = "''added''" and cmd = ?cmd
      and decide = "always ''a''" and c = ?c1 and h = "()"]
  from inst p s m ex
  have "iteration ?cmds (always ''a'') (start_run ?t ())
       = Continue ((start_run ?t ())\<lparr>processed_text := take 11 ?t @ drop 21 ?t,
                      printed := printed (start_run ?t ())
                        @ [''Warning: Malformed command '' @ [CHR 0x27, backslash] @ ''added''
                             @ [CHR 0x27] @ '' at position '' @ str_nat 11 @ ''. Skipping.''],
                      passes := Suc (passes (start_run ?t ()))\<rparr>)"
    by blast
  then have i: "iteration ?cmds (always ''a'') (start_run ?t ())
       = Continue \<lparr>processed_text = ''0123456789 {b}{c d'', handler = (),
                    printed = [''Warning: Malformed command '' @ [CHR 0x27, backslash]
                                 @ ''added'' @ [CHR 0x27] @ '' at position 11. Skipping.''],
                    asked = [], passes = 1\<rparr>"
    by (simp add: start_run_def d)
  from inst
  have "process [(''cmdname'', ?c1)] (always ''a'') (backslash # ''cmdname{unbalanced'') ()
       = Some (Inr \<lparr>processed_text = ''{unbalanced'', handler = (),
                     printed = [''Warning: Malformed command '' @ [CHR 0x27, backslash]
                                  @ ''cmdname'' @ [CHR 0x27] @ '' at position 0. Skipping.''],
                     asked = [], passes = 1\<rparr>)"
    by simp
  with s c1 f1 i sl show ?thesis by simp
qed

section \<open>Termination\<close>

lemma count_backslashes_append [simp]:
  "count_backslashes (xs @ ys) = count_backslashes xs + count_backslashes ys"
  by (simp add: count_backslashes_def)

lemma count_backslashes_Nil [simp]: "count_backslashes [] = 0"
  by (simp add: count_backslashes_def)

lemma count_backslashes_braced [simp]: "count_backslashes (braced a) = count_backslashes a"
  by (simp add: count_backslashes_def braced_def lbrace_def rbrace_def backslash_def)

lemma count_backslashes_groups:
  "count_backslashes (concat (map braced args)) = sum_list (map count_backslashes args)"
  by (induction args) simp_all

lemma count_backslashes_split:
  "a \<le> b \<Longrightarrow> count_backslashes t
     = count_backslashes (take a t) + count_backslashes (slice t a b) + count_backslashes (drop b t)"
  using text_split [of a b t] count_backslashes_append
  by (metis add.assoc)

lemma count_backslashes_match:
  assumes "search cmds t = Some (start, match_end, name)"
  shows "0 < count_backslashes (slice t start match_end)"
proof -
  from search_Some [OF assms] have "start < match_end" "match_end \<le> length t"
    "t ! start = backslash" by simp_all
  then have "slice t start match_end = backslash # slice t (Suc start) match_end"
    using slice_Cons [of start t match_end] by simp
  then show ?thesis by (simp add: count_backslashes_def)
qed

lemma occurrences_le_backslashes: "length (occurrences cmds t) \<le> count_backslashes t"
proof -
  let ?A = "{i. i < length t \<and> occurs_at (command_names cmds) t i}"
  let ?B = "{i. i < length t \<and> t ! i = backslash}"
  have "length (occurrences cmds t) = card ?A"
    by (simp add: occurrences_def length_filter_conv_card cong: conj_cong)
  moreover have "count_backslashes t = card ?B"
    by (simp add: count_backslashes_def length_filter_conv_card)
  moreover have "?A \<subseteq> ?B" by (auto simp: occurs_at_def)
  moreover have "finite ?B" by simp
  ultimately show ?thesis by (simp add: card_mono)
qed

lemma search_name_known:
  assumes "search cmds t = Some (start, match_end, name)" and "cmds \<noteq> []"
  shows "map_of cmds name \<noteq> None"
proof -
  from search_Some [OF assms(1)] assms(2) have "name \<in> fst ` set cmds"
    by (simp add: command_names_def)
  then show ?thesis by (simp add: map_of_eq_None_iff)
qed

lemma iteration_Raise: "iteration cmds decide s = Raise e \<Longrightarrow> cmds = []"
  using search_name_known [of cmds "processed_text s"]
  by (auto simp: iteration_def Let_def split: option.splits prod.splits)

lemma iteration_decreases:
  assumes nn: "no_new_markers cmds" and nk: "never_keeps decide"
    and it: "iteration cmds decide s = Continue s'"
  shows "count_backslashes (processed_text s') < count_backslashes (processed_text s)
         \<and> passes s' = Suc (passes s)"
proof -
  let ?t = "processed_text s"
  from it obtain start match_end name where se: "search cmds ?t = Some (start, match_end, name)"
    by (auto simp: iteration_def Let_def split: option.splits)
  from it se obtain cmd where m: "map_of cmds name = Some cmd"
    by (auto simp: iteration_def Let_def split: option.splits)
  from search_Some [OF se] have b: "start < match_end" "match_end \<le> length ?t" by simp_all
  note head = count_backslashes_match [OF se]
  show ?thesis
  proof (cases "collect_args ?t (num_args cmd) [] match_end")
    case None
    from iteration_malformed [where decide = decide and s = s, OF refl se m None] it
    have s': "s' = s\<lparr>processed_text := take start ?t @ drop match_end ?t,
                     printed := printed s @ [warning name start],
                     passes := Suc (passes s)\<rparr>" by simp
    from b have "count_backslashes ?t = count_backslashes (take start ?t)
        + count_backslashes (slice ?t start match_end) + count_backslashes (drop match_end ?t)"
      by (intro count_backslashes_split) simp
    with head s' show ?thesis by simp
  next
    case (Some a)
    obtain args cend where a: "a = (args, cend)" by (cases a)
    obtain action h' where d: "decide (handler s) cmd args = (action, h')"
      by (cases "decide (handler s) cmd args")
    let ?r = "replacement_for action cmd args ?t start cend"
    from iteration_well_formed [where decide = decide and s = s, OF refl se m Some [unfolded a] d] it
    have s': "s' = s\<lparr>processed_text := take start ?t @ ?r @ drop cend ?t,
                     handler := h', asked := asked s @ [(name, args)],
                     passes := Suc (passes s)\<rparr>" by simp
    from collect_args_bounds [OF Some [unfolded a] b(2)] have c: "match_end \<le> cend" by simp
    from collect_args_slice [OF Some [unfolded a] b(2)]
    have la: "length args = num_args cmd"
      and sl: "slice ?t match_end cend = concat (map braced args)" by auto
    from nk d have "action \<noteq> ''k''"
      unfolding never_keeps_def by (metis fst_conv)
    moreover from m have "(name, cmd) \<in> set cmds" by (rule map_of_SomeD)
    with nn la have "count_backslashes (accept cmd args) \<le> sum_list (map count_backslashes args)"
      and "count_backslashes (reject cmd args) \<le> sum_list (map count_backslashes args)"
      unfolding no_new_markers_def by auto
    ultimately have r: "count_backslashes ?r \<le> sum_list (map count_backslashes args)"
      by (simp add: replacement_for_def)
    have "slice ?t start cend = slice ?t start match_end @ slice ?t match_end cend"
      using b(1) c slice_append [of start match_end cend ?t] by simp
    then have "count_backslashes (slice ?t start cend)
                 = count_backslashes (slice ?t start match_end)
                   + sum_list (map count_backslashes args)"
      by (simp add: sl count_backslashes_groups)
    with head r have "count_backslashes ?r < count_backslashes (slice ?t start cend)" by simp
    moreover from b(1) c have "count_backslashes ?t = count_backslashes (take start ?t)
        + count_backslashes (slice ?t start cend) + count_backslashes (drop cend ?t)"
      by (intro count_backslashes_split) simp
    ultimately show ?thesis using s' by simp
  qed
qed

lemma process_loop_terminates:
  assumes nn: "no_new_markers cmds" and nk: "never_keeps decide"
  shows "\<exists>r. process_loop cmds decide s = Some r
           \<and> (cmds \<noteq> [] \<longrightarrow>
                (\<exists>s'. r = Inr s'
                   \<and> passes s' \<le> passes s + count_backslashes (processed_text s)
                   \<and> occurrences cmds (processed_text s') = []))"
proof (induction "count_backslashes (processed_text s)" arbitrary: s rule: less_induct)
  case less
  show ?case
  proof (cases "iteration cmds decide s")
    case Break
    then have "occurrences cmds (processed_text s) = []"
      by (simp add: iteration_Break search_None)
    with process_loop_Break [OF Break] show ?thesis by simp
  next
    case (Raise e)
    from iteration_Raise [OF Raise] process_loop_Raise [OF Raise] show ?thesis by simp
  next
    case (Continue s1)
    from iteration_decreases [OF nn nk Continue]
    have d: "count_backslashes (processed_text s1) < count_backslashes (processed_text s)"
      and p: "passes s1 = Suc (passes s)" by simp_all
    from less [OF d] obtain r where r: "process_loop cmds decide s1 = Some r"
      "cmds \<noteq> [] \<longrightarrow> (\<exists>s'. r = Inr s'
          \<and> passes s' \<le> passes s1 + count_backslashes (processed_text s1)
          \<and> occurrences cmds (processed_text s') = [])" by blast
    from r(2) d p have "cmds \<noteq> [] \<longrightarrow> (\<exists>s'. r = Inr s'
          \<and> passes s' \<le> passes s + count_backslashes (processed_text s)
          \<and> occurrences cmds (processed_text s') = [])" by auto
    with r(1) process_loop_Continue [OF Continue] show ?thesis by simp
  qed
qed

text \<open>
  Claim C2, as amended. A text holds at most as many occurrences of command names as
  escape characters. If the decision source never answers keep and the transforms add
  no new markers, \<^verbatim>\<open>process\<close> terminates, and for a non-empty command table it
  returns after at most as many rewriting passes as the input has escape characters,
  with no occurrence left in the result. (The number of occurrences itself is not a
  bound: a splice can put a new command name together at its seam.)
\<close>

theorem process_terminates_within_backslashes:
  assumes "no_new_markers cmds" and "never_keeps decide"
  shows "length (occurrences cmds t) \<le> count_backslashes t
         \<and> (\<exists>r. process cmds decide t h = Some r
              \<and> (cmds \<noteq> [] \<longrightarrow>
                   (\<exists>s'. r = Inr s' \<and> passes s' \<le> count_backslashes t
                      \<and> occurrences cmds (processed_text s') = [])))"
  using process_loop_terminates [OF assms, of "start_run t h"] occurrences_le_backslashes [of cmds t]
  by (simp add: process_def start_run_def)

lemma added_x_search: "search added_only (backslash # ''added{x}'') = Some (0, 6, ''added'')"
  by (simp add: added_only_def pattern_eval)

lemma added_x_args: "collect_args (backslash # ''added{x}'') 1 [] 6 = Some ([''x''], 9)"
  by (simp add: matcher_eval backslash_def)

lemma no_new_markers_added_only: "no_new_markers added_only"
proof -
  have "count_backslashes (hd args) \<le> sum_list (map count_backslashes args)"
    if "length args = 1" for args :: "string list"
  proof -
    from that obtain a where "args = [a]" by (cases args) auto
    then show ?thesis by simp
  qed
  then show ?thesis by (simp add: no_new_markers_def added_only_def)
qed

lemma never_keeps_always: "action \<noteq> ''k'' \<Longrightarrow> never_keeps (always action)"
  by (simp add: never_keeps_def always_def)

theorem process_terminates_within_backslashes_witness:
  "no_new_markers added_only \<and> never_keeps (always ''a'' :: unit decision_source)
   \<and> length (occurrences added_only (''Hello '' @ backslash # ''added{new text} world.'')) \<le> 1
   \<and> count_backslashes (''Hello '' @ backslash # ''added{new text} world.'') = 1
   \<and> (\<exists>s'. process added_only (always ''a'') (''Hello '' @ backslash # ''added{new text} world.'') ()
               = Some (Inr s')
            \<and> passes s' \<le> 1 \<and> occurrences added_only (processed_text s') = [])"
proof -
  let ?t = "''Hello '' @ backslash # ''added{new text} world.''"
  have nk: "never_keeps (always ''a'' :: unit decision_source)"
    by (rule never_keeps_always) simp
  have b: "count_backslashes ?t = 1" by (simp add: count_backslashes_def backslash_def)
  have ne: "added_only \<noteq> []" by (simp add: added_only_def)
  from process_terminates_within_backslashes [OF no_new_markers_added_only nk, of ?t "()"] b ne
  show ?thesis using no_new_markers_added_only nk by auto
qed

text \<open>
  Claim C2 as stated fails. In \<^verbatim>\<open>\ad\addedded{x}\<close> the only occurrence of a command
  name is \<^verbatim>\<open>\added\<close> at offset 3, and it is malformed. Deleting it joins \<^verbatim>\<open>\ad\<close> and
  \<^verbatim>\<open>ded{x}\<close> into a new occurrence, which takes a second pass: two rewriting passes
  for one occurrence, with a decision source that always accepts and transforms that
  return an argument or nothing.
\<close>

theorem occurrence_count_is_no_bound:
  "length (occurrences added_only (backslash # ''ad'' @ backslash # ''addedded{x}'')) = 1
   \<and> no_new_markers added_only \<and> never_keeps (always ''a'' :: unit decision_source)
   \<and> process added_only (always ''a'') (backslash # ''ad'' @ backslash # ''addedded{x}'') ()
       = Some (Inr \<lparr>processed_text = ''x'', handler = (),
                     printed = [warning ''added'' 3],
                     asked = [(''added'', [''x''])], passes = 2\<rparr>)"
proof -
  let ?t = "backslash # ''ad'' @ backslash # ''addedded{x}''"
  let ?t1 = "backslash # ''added{x}''"
  let ?cmd = "\<lparr>num_args = 1, accept = hd, reject = (\<lambda>_. [])\<rparr>"
  let ?s1 = "\<lparr>processed_text = ?t1, handler = (), printed = [warning ''added'' 3],
               asked = [], passes = 1\<rparr>"
  let ?s2 = "\<lparr>processed_text = ''x'', handler = (), printed = [warning ''added'' 3],
               asked = [(''added'', [''x''])], passes = 2\<rparr>"
  have o: "length (occurrences added_only ?t) = 1"
    by (simp add: occurrences_def occurs_at_def command_names_def added_only_def backslash_def)
  have m: "map_of added_only ''added'' = Some ?cmd" by (simp add: added_only_def)
  have s0: "search added_only ?t = Some (3, 9, ''added'')"
    by (simp add: added_only_def pattern_eval)
  have c0: "collect_args ?t (num_args ?cmd) [] 9 = None"
    by (simp add: matcher_eval backslash_def)
  have 1: "iteration added_only (always ''a'') (start_run ?t ()) = Continue ?s1"
    using iteration_malformed [where decide = "always ''a''" and s = "start_run ?t ()",
            OF _ s0 m c0]
    by (simp add: start_run_def)
  have c1: "collect_args ?t1 (num_args ?cmd) [] 6 = Some ([''x''], 9)"
    using added_x_args by simp
  have 2: "iteration added_only (always ''a'') ?s1 = Continue ?s2"
    using iteration_well_formed [where decide = "always ''a''" and s = ?s1 and action = "''a''"
            and h' = "()", OF _ added_x_search m c1]
    by (simp add: always_def replacement_for_def)
  have 3: "iteration added_only (always ''a'') ?s2 = Break"
    by (simp add: iteration_Break added_only_def pattern_eval)
  from 1 2 3 have "process added_only (always ''a'') ?t () = Some (Inr ?s2)"
    by (simp add: process_def process_loop_Continue process_loop_Break)
  moreover have "never_keeps (always ''a'' :: unit decision_source)"
    by (rule never_keeps_always) simp
  ultimately show ?thesis using o no_new_markers_added_only by simp
qed

section \<open>A kept command is found again\<close>

lemma returning_loop_leaves_invariant:
  assumes ret: "process_loop cmds decide s = Some y"
    and inv: "\<forall>u. I u \<longrightarrow> (\<exists>u'. iteration cmds decide u = Continue u' \<and> I u')"
  shows "\<not> I s"
proof -
  let ?P = "\<lambda>c d s (y :: error + 'a run).
              (\<forall>u. I u \<longrightarrow> (\<exists>u'. iteration c d u = Continue u' \<and> I u')) \<longrightarrow> \<not> I s"
  have "?P cmds decide s y"
  proof (rule process_loop.raw_induct [where P = ?P, OF _ ret])
    fix f :: "command_map \<Rightarrow> 'a decision_source \<Rightarrow> 'a run \<Rightarrow> (error + 'a run) option"
    fix c d s y
    assume IH: "\<And>c' d' s' y'. f c' d' s' = Some y' \<Longrightarrow> ?P c' d' s' y'"
      and eq: "(case iteration c d s of Break \<Rightarrow> Some (Inr s) | Raise e \<Rightarrow> Some (Inl e)
                | Continue s' \<Rightarrow> f c d s') = Some y"
    show "?P c d s y"
    proof (intro impI notI)
      assume step: "\<forall>u. I u \<longrightarrow> (\<exists>u'. iteration c d u = Continue u' \<and> I u')" and "I s"
      then obtain s' where s': "iteration c d s = Continue s'" "I s'" by blast
      with eq have "f c d s' = Some y" by simp
      from IH [OF this] step s'(2) show False by blast
    qed
  qed
  with inv show ?thesis by blast
qed

lemma process_loop_diverges:
  assumes "\<And>u. I u \<Longrightarrow> \<exists>u'. iteration cmds decide u = Continue u' \<and> I u'" and "I s"
  shows "process_loop cmds decide s = None"
proof (cases "process_loop cmds decide s")
  case None
  then show ?thesis .
next
  case (Some y)
  from returning_loop_leaves_invariant [OF Some, of I] assms show ?thesis by blast
qed

lemma iteration_keep:
  assumes "processed_text s = t" and "search cmds t = Some (start, match_end, name)"
    and "map_of cmds name = Some cmd"
    and "collect_args t (num_args cmd) [] match_end = Some (args, command_end_pos)"
    and "decide (handler s) cmd args = (''k'', h')"
  shows "iteration cmds decide s =
           Continue (s\<lparr>handler := h', asked := asked s @ [(name, args)],
                       passes := Suc (passes s)\<rparr>)"
proof -
  from span_bounds [OF assms(2) assms(4)]
  have "take start t @ slice t start command_end_pos @ drop command_end_pos t = t"
    by (simp add: text_split)
  with iteration_well_formed [where decide = decide, OF assms] assms(1)
  show ?thesis by (simp add: replacement_for_def)
qed

lemma keep_loop_diverges:
  assumes "search cmds t = Some (start, match_end, name)"
    and "map_of cmds name = Some cmd"
    and "collect_args t (num_args cmd) [] match_end = Some (args, command_end_pos)"
    and "\<And>h. fst (decide h cmd args) = ''k''"
    and "processed_text s = t"
  shows "process_loop cmds decide s = None"
proof (rule process_loop_diverges [where I = "\<lambda>u. processed_text u = t"])
  fix u :: "'a run"
  assume u: "processed_text u = t"
  obtain a h' where d: "decide (handler u) cmd args = (a, h')"
    by (cases "decide (handler u) cmd args")
  with assms(4) [of "handler u"] have "a = ''k''" by simp
  with d iteration_keep [where decide = decide, OF u assms(1-3)]
  show "\<exists>u'. iteration cmds decide u = Continue u' \<and> processed_text u' = t"
    using u by auto
next
  show "processed_text s = t" by fact
qed

text \<open>
  Claim C1 does not hold of the code. The loop searches the whole buffer again after
  every pass and keeps no record of kept spans, so a kept command is the first match of
  the next pass as well. On \<^verbatim>\<open>\added{x}\<close> with a decision source that always answers
  keep, \<^verbatim>\<open>process\<close> never returns, and the decision source is asked about the same
  occurrence in every pass: the first two passes are shown.
\<close>

theorem keep_decision_never_returns:
  "process added_only (always ''k'') (backslash # ''added{x}'') h = None
   \<and> iteration added_only (always ''k'') (start_run (backslash # ''added{x}'') h)
       = Continue \<lparr>processed_text = backslash # ''added{x}'', handler = h, printed = [],
                    asked = [(''added'', [''x''])], passes = 1\<rparr>
   \<and> iteration added_only (always ''k'')
         \<lparr>processed_text = backslash # ''added{x}'', handler = h, printed = [],
           asked = [(''added'', [''x''])], passes = 1\<rparr>
       = Continue \<lparr>processed_text = backslash # ''added{x}'', handler = h, printed = [],
                    asked = [(''added'', [''x'']), (''added'', [''x''])], passes = 2\<rparr>"
proof -
  let ?t = "backslash # ''added{x}''"
  let ?cmd = "\<lparr>num_args = 1, accept = hd, reject = (\<lambda>_. [])\<rparr>"
  let ?s1 = "\<lparr>processed_text = ?t, handler = h, printed = [],
               asked = [(''added'', [''x''])], passes = 1\<rparr>"
  have m: "map_of added_only ''added'' = Some ?cmd" by (simp add: added_only_def)
  have c: "collect_args ?t (num_args ?cmd) [] 6 = Some ([''x''], 9)"
    using added_x_args by simp
  have k: "fst (always ''k'' g ?cmd [''x'']) = ''k''" for g :: 'a
    by (simp add: always_def)
  have "process_loop added_only (always ''k'') (start_run ?t h) = None"
    by (rule keep_loop_diverges [where decide = "always ''k''", OF added_x_search m c k])
       (simp add: start_run_def)
  then have 1: "process added_only (always ''k'') ?t h = None" by (simp add: process_def)
  have 2: "iteration added_only (always ''k'') (start_run ?t h) = Continue ?s1"
    using iteration_keep [where decide = "always ''k''" and s = "start_run ?t h" and h' = h,
            OF _ added_x_search m c]
    by (simp add: start_run_def always_def)
  have 3: "iteration added_only (always ''k'') ?s1
       = Continue \<lparr>processed_text = ?t, handler = h, printed = [],
                    asked = [(''added'', [''x'']), (''added'', [''x''])], passes = 2\<rparr>"
    using iteration_keep [where decide = "always ''k''" and s = ?s1 and h' = h,
            OF _ added_x_search m c]
    by (simp add: always_def)
  from 1 2 3 show ?thesis by simp
qed

end
